theory Spec2Isabelle
  imports Complex_Main
begin

section \<open>The evolution controller of genepro/evo.py\<close>

text \<open>
  The class \<open>Evolution\<close> of \<open>src/genepro/evo.py\<close> is embedded with explicit state
  passing. Individuals are Python objects that the code copies with \<open>deepcopy\<close>,
  aliases (\<open>best\<close>, \<open>lowest\<close>) and mutates in place, so the model keeps an object
  store: the heap is a list of objects, a reference is an index into it, and a new
  object is appended. Fitness values, rewards and network outputs are Python floats;
  they are modelled as real numbers (no rounding, no NaN). The one float that decides
  an integer of the control flow, the product \<open>self.elitism * self.pop_size\<close> of
  line 256, is rounded as double-precision arithmetic rounds it.

  The collaborators that are not part of the file (selection, variation, the fitness
  function, the tree type, the replay memory type and torch) are parameters.
\<close>

subsection \<open>Data\<close>

datatype error =
  IndexError | ValueError | TypeError | RuntimeError | StatisticsError | OverflowError

record 's transition =
  state :: 's
  action :: nat
  next_state :: "'s option"
  reward :: real

record 't individual =
  tree :: 't
  fitness :: real
  games :: int
  wins :: int

text \<open>
  What one call of the fitness function returns: the tuple
  \<open>(fitness, replay contribution, wins, games)\<close>, indexed 0 to 3 in the source.
\<close>

type_synonym 's evaluation = "real \<times> 's transition list \<times> int \<times> int"

definition ev_fitness :: "'s evaluation \<Rightarrow> real" where
  "ev_fitness e = fst e"

definition ev_memory :: "'s evaluation \<Rightarrow> 's transition list" where
  "ev_memory e = fst (snd e)"

definition ev_wins :: "'s evaluation \<Rightarrow> int" where
  "ev_wins e = fst (snd (snd e))"

definition ev_games :: "'s evaluation \<Rightarrow> int" where
  "ev_games e = snd (snd (snd e))"

text \<open>
  The collaborators. Randomness is made explicit by index arguments:
  \<^item> \<open>generate_random_multitree k\<close> is the object built by the \<open>k\<close>-th call at
    initialisation;
  \<^item> \<open>sel_fun g pop n\<close> is the parent list selected in generation \<open>g\<close>;
  \<^item> \<open>generate_offspring g i t parents\<close> is the offspring built from the \<open>i\<close>-th
    parent \<open>t\<close> in generation \<open>g\<close>;
  \<^item> \<open>fitness_function k hard i x\<close> is the result of evaluating object \<open>x\<close>, at
    position \<open>i\<close> of its batch, under the seeds drawn by the \<open>k\<close>-th call of
    \<open>initSeeds\<close> (\<open>hard\<close> when \<open>initSeeds(True)\<close> followed it); the workers receive
    copies, so the evaluation does not change the object;
  \<^item> \<open>clock k\<close> is the \<open>k\<close>-th reading of \<open>time.time()\<close>;
  \<^item> \<open>get_subtrees_consts\<close>, \<open>get_output_pt\<close> belong to the tree type,
    \<open>sample\<close> to the replay memory, \<open>new_optimizer\<close> and \<open>optimizer_step\<close>
    stand for \<open>optim.AdamW\<close> and for the loss, backward pass, gradient clipping and
    optimizer step of torch.
\<close>

record ('t, 's, 'o) collaborators =
  generate_random_multitree :: "nat \<Rightarrow> 't individual"
  sel_fun :: "nat \<Rightarrow> 't individual list \<Rightarrow> nat \<Rightarrow> 't individual list"
  generate_offspring :: "nat \<Rightarrow> nat \<Rightarrow> 't individual \<Rightarrow> 't individual list \<Rightarrow> 't individual"
  fitness_function :: "nat \<Rightarrow> bool \<Rightarrow> nat \<Rightarrow> 't individual \<Rightarrow> 's evaluation"
  clock :: "nat \<Rightarrow> real"
  get_subtrees_consts :: "'t \<Rightarrow> real list"
  get_output_pt :: "'t \<Rightarrow> 's \<Rightarrow> real list"
  sample :: "nat \<Rightarrow> 's transition list \<Rightarrow> nat \<Rightarrow> 's transition list"
  new_optimizer :: "real list \<Rightarrow> 'o"
  optimizer_step :: "'o \<Rightarrow> 't \<Rightarrow> real list \<Rightarrow> real list \<Rightarrow> 'o \<times> 't"

text \<open>The constructor's parameters that the controller reads.\<close>

record config =
  pop_size :: nat
  elitism :: real
  max_evals :: "int option"
  max_gens :: "int option"
  max_time :: "real option"
  verbose :: bool

text \<open>The attributes of an \<open>Evolution\<close> object that change, and the object store.\<close>

record ('t, 's) evolution =
  heap :: "'t individual list"
  population :: "nat list"
  num_gens :: nat
  num_evals :: nat
  start_time :: real
  elapsed_time :: real
  best_of_gens :: "nat list"
  bestFitnesses :: "real list"
  memory :: "'s transition list option"

text \<open>
  \<open>__init__\<close>: the state of a new object whose \<open>initialPopulation\<close> argument holds
  the given objects (the empty list by default).
\<close>

definition new_evolution :: "'t individual list \<Rightarrow> ('t, 's) evolution" where
  "new_evolution initialPopulation =
     \<lparr> heap = initialPopulation,
       population = [0 ..< length initialPopulation],
       num_gens = 0,
       num_evals = 0,
       start_time = 0,
       elapsed_time = 0,
       best_of_gens = [],
       bestFitnesses = [- 1000, - 700],
       memory = None \<rparr>"

subsection \<open>Python and numpy operations\<close>

text \<open>\<open>np.argmax\<close> and \<open>np.argmin\<close> return the first index of an extreme value.\<close>

fun argmax :: "real list \<Rightarrow> nat" where
  "argmax [] = 0"
| "argmax (x # xs) = (if xs = [] \<or> xs ! argmax xs \<le> x then 0 else Suc (argmax xs))"

fun argmin :: "real list \<Rightarrow> nat" where
  "argmin [] = 0"
| "argmin (x # xs) = (if xs = [] \<or> x \<le> xs ! argmin xs then 0 else Suc (argmin xs))"

text \<open>\<open>int(x)\<close> on a float truncates towards zero.\<close>

definition py_int :: "real \<Rightarrow> int" where
  "py_int x = (if 0 \<le> x then \<lfloor>x\<rfloor> else \<lceil>x\<rceil>)"

text \<open>
  Python floats are IEEE 754 double-precision numbers: 53 significant bits, exponents
  from \<open>- 1022\<close> to \<open>1023\<close>, results rounded to the nearest double and, of two
  nearest ones, to the one whose last bit is even.

  \<open>bit_length n\<close> is \<open>int.bit_length\<close> of a positive integer, and
  \<open>double_exponent x\<close> is the exponent \<open>e\<close> with \<open>2 ^ e \<le> x < 2 ^ (e + 1)\<close> of a positive
  number \<open>x\<close>.
\<close>

function bit_length :: "int \<Rightarrow> int" where
  "bit_length n = (if n \<le> 0 then 0 else 1 + bit_length (n div 2))"
  by pat_completeness auto

termination bit_length
  by (relation "measure nat") auto

declare bit_length.simps [simp del]

definition double_exponent :: "real \<Rightarrow> int" where
  "double_exponent x =
     (if 1 \<le> x then bit_length \<lfloor>x\<rfloor> - 1
      else - bit_length (\<lceil>1 / x\<rceil> - 1))"

definition round_half_even :: "real \<Rightarrow> int" where
  "round_half_even x =
     (let n = \<lfloor>x\<rfloor>; d = x - of_int n
      in if d < 1 / 2 then n else if 1 / 2 < d then n + 1 else if even n then n else n + 1)"

text \<open>
  \<open>double_round x\<close> is the double nearest to \<open>x\<close>: a multiple of the unit in the
  last place of the binade of \<open>x\<close> (of the least binade for a subnormal number). The
  exponent is not bounded from above here; a number whose nearest double would be
  \<open>2 ^ 1024\<close> or more is rounded to an infinity by the hardware, which is what
  \<open>double_overflow\<close> says.
\<close>

definition double_round :: "real \<Rightarrow> real" where
  "double_round x =
     (if x = 0 then 0
      else let e = max (double_exponent \<bar>x\<bar>) (- 1022);
               ulp = 2 powi (e - 52)
           in of_int (round_half_even (x / ulp)) * ulp)"

definition double_overflow :: "real \<Rightarrow> bool" where
  "double_overflow x \<longleftrightarrow> 2 ^ 1024 \<le> \<bar>double_round x\<bar>"

text \<open>The slice \<open>xs[:k]\<close>; a negative \<open>k\<close> counts from the end.\<close>

definition slice_to :: "int \<Rightarrow> 'a list \<Rightarrow> 'a list" where
  "slice_to k xs = (if 0 \<le> k then take (nat k) xs else take (length xs - nat (- k)) xs)"

text \<open>
  \<open>sorted(xs, key=..., reverse=True)\<close> is a stable sort in descending order of the
  key: a stable ascending sort on the negated key.
\<close>

definition sorted_by_fitness_desc :: "'t individual list \<Rightarrow> nat list \<Rightarrow> nat list" where
  "sorted_by_fitness_desc h rs = sort_key (\<lambda>r. - fitness (h ! r)) rs"

text \<open>
  \<open>deepcopy\<close> of one object allocates a new object with the same contents;
  \<open>deepcopy\<close> of a list copies each object once (its memo maps an object that occurs
  again to the copy already made).
\<close>

definition deepcopy :: "'t individual list \<Rightarrow> nat \<Rightarrow> nat \<times> 't individual list" where
  "deepcopy h r = (length h, h @ [h ! r])"

fun deepcopy_list ::
  "(nat \<times> nat) list \<Rightarrow> 't individual list \<Rightarrow> nat list \<Rightarrow> nat list \<times> 't individual list" where
  "deepcopy_list memo h [] = ([], h)"
| "deepcopy_list memo h (r # rs) =
     (case map_of memo r of
        Some c \<Rightarrow> (let (cs, h') = deepcopy_list memo h rs in (c # cs, h'))
      | None \<Rightarrow> (let (c, h1) = deepcopy h r;
                    (cs, h') = deepcopy_list ((r, c) # memo) h1 rs
                in (c # cs, h')))"

text \<open>The objects returned by the parallel workers are new objects.\<close>

definition alloc_list :: "'t individual list \<Rightarrow> 't individual list \<Rightarrow> nat list \<times> 't individual list" where
  "alloc_list h objs = ([length h ..< length h + length objs], h @ objs)"

text \<open>The list \<open>[t.fitness for t in population]\<close> handed to \<open>np.argmax\<close> and \<open>np.argmin\<close>.\<close>

definition fitnesses_of :: "'t individual list \<Rightarrow> nat list \<Rightarrow> real list" where
  "fitnesses_of h rs = map (\<lambda>r. fitness (h ! r)) rs"

text \<open>
  \<open>Parallel(...)(delayed(fitness_function)(t) for t in batch)\<close>: one result per
  object, in the order of the batch.
\<close>

definition evaluate ::
  "('t, 's, 'o) collaborators \<Rightarrow> nat \<Rightarrow> bool \<Rightarrow> 't individual list \<Rightarrow> nat list \<Rightarrow> 's evaluation list" where
  "evaluate w k hard h batch =
     map (\<lambda>i. fitness_function w k hard i (h ! (batch ! i))) [0 ..< length batch]"

subsection \<open>One generation\<close>

text \<open>
  \<open>elite_count = int(self.elitism * self.pop_size)\<close> (line 256). \<open>elitism\<close> is a
  float and \<open>pop_size\<close> an integer: the integer is converted to a double, the
  product of the two doubles is rounded to a double, and \<open>int\<close> truncates it.
  \<open>elitism c\<close> is the number that the caller passed; what the object holds is the
  double nearest to it.

  The line raises when no integer results:
  \<^item> \<open>pop_size\<close> is too large for a double: \<open>OverflowError\<close>;
  \<^item> \<open>elitism\<close> is an infinity: the product with 0 is not a number and \<open>int\<close>
    raises \<open>ValueError\<close>, every other product is an infinity and \<open>int\<close> raises
    \<open>OverflowError\<close>;
  \<^item> the product of two finite doubles is rounded to an infinity: \<open>OverflowError\<close>.
\<close>

definition elite_count :: "config \<Rightarrow> int" where
  "elite_count c =
     py_int (double_round (double_round (elitism c) * double_round (real (pop_size c))))"

definition elite_count_error :: "config \<Rightarrow> error option" where
  "elite_count_error c =
     (if double_overflow (real (pop_size c)) then Some OverflowError
      else if double_overflow (elitism c)
        then (if pop_size c = 0 then Some ValueError else Some OverflowError)
      else if double_overflow (double_round (elitism c) * double_round (real (pop_size c)))
        then Some OverflowError
      else None)"

text \<open>
  The parents chosen by the selection operator and the offspring built from them, one
  per parent (lines 253 to 264).
\<close>

definition parents_of ::
  "('t, 's, 'o) collaborators \<Rightarrow> config \<Rightarrow> ('t, 's) evolution \<Rightarrow> 't individual list" where
  "parents_of w c st =
     sel_fun w (num_gens st) (map (\<lambda>r. heap st ! r) (population st)) (pop_size c)"

definition offspring_of ::
  "('t, 's, 'o) collaborators \<Rightarrow> config \<Rightarrow> ('t, 's) evolution \<Rightarrow> 't individual list" where
  "offspring_of w c st =
     (let parents = parents_of w c st
      in map (\<lambda>i. generate_offspring w (num_gens st) i (parents ! i) parents)
           [0 ..< length parents])"

text \<open>
  The elite snapshot (line 257) and the objects of the offspring population: the
  references and the heap after the allocation.
\<close>

definition elites_of :: "config \<Rightarrow> ('t, 's) evolution \<Rightarrow> nat list \<times> 't individual list" where
  "elites_of c st =
     deepcopy_list [] (heap st)
       (slice_to (elite_count c) (sorted_by_fitness_desc (heap st) (population st)))"

definition offspring_population_of ::
  "('t, 's, 'o) collaborators \<Rightarrow> config \<Rightarrow> ('t, 's) evolution \<Rightarrow> nat list \<times> 't individual list" where
  "offspring_population_of w c st = alloc_list (snd (elites_of c st)) (offspring_of w c st)"

text \<open>
  Line 270: the harder evaluation configuration is requested when the best fitness
  exceeds 150 and the mean fitness exceeds 20.
\<close>

definition harder :: "'t individual list \<Rightarrow> nat list \<Rightarrow> bool" where
  "harder h pop =
     (150 < fitness (h ! (pop ! argmax (fitnesses_of h pop)))
      \<and> 20 < sum_list (fitnesses_of h pop) / real (length pop))"

text \<open>
  The assignments \<open>x.fitness = ...\<close>, \<open>x.games += ...\<close>, \<open>x.wins += ...\<close> for the
  first \<open>n\<close> objects of a batch. (For the elites the source assigns the fitness a
  second time, with the same value, at lines 290 and 291.)
\<close>

definition set_scores :: "'t individual list \<Rightarrow> nat \<Rightarrow> 's evaluation \<Rightarrow> 't individual list" where
  "set_scores h r e =
     h[r := (h ! r)\<lparr> fitness := ev_fitness e,
                     games := games (h ! r) + ev_games e,
                     wins := wins (h ! r) + ev_wins e \<rparr>]"

definition store_scores ::
  "'t individual list \<Rightarrow> nat list \<Rightarrow> 's evaluation list \<Rightarrow> nat \<Rightarrow> 't individual list" where
  "store_scores h batch res n = fold (\<lambda>i h'. set_scores h' (batch ! i) (res ! i)) [0 ..< n] h"

definition elite_fitnesses ::
  "('t, 's, 'o) collaborators \<Rightarrow> config \<Rightarrow> ('t, 's) evolution \<Rightarrow> 's evaluation list" where
  "elite_fitnesses w c st =
     evaluate w (Suc (num_gens st)) (harder (heap st) (population st))
       (snd (offspring_population_of w c st)) (fst (elites_of c st))"

definition heap_after_elites ::
  "('t, 's, 'o) collaborators \<Rightarrow> config \<Rightarrow> ('t, 's) evolution \<Rightarrow> 't individual list" where
  "heap_after_elites w c st =
     store_scores (snd (offspring_population_of w c st)) (fst (elites_of c st))
       (elite_fitnesses w c st) (nat (elite_count c))"

definition offspring_fitnesses ::
  "('t, 's, 'o) collaborators \<Rightarrow> config \<Rightarrow> ('t, 's) evolution \<Rightarrow> 's evaluation list" where
  "offspring_fitnesses w c st =
     evaluate w (Suc (num_gens st)) (harder (heap st) (population st))
       (heap_after_elites w c st) (fst (offspring_population_of w c st))"

definition heap_after_offspring ::
  "('t, 's, 'o) collaborators \<Rightarrow> config \<Rightarrow> ('t, 's) evolution \<Rightarrow> 't individual list" where
  "heap_after_offspring w c st =
     store_scores (heap_after_elites w c st) (fst (offspring_population_of w c st))
       (offspring_fitnesses w c st) (pop_size c)"

text \<open>
  One round of lines 327 to 329 (and of lines 338 to 342): the first object of lowest
  fitness leaves the population and a deep copy of \<open>r\<close> is appended.
  \<open>list.remove(lowest)\<close> deletes the first occurrence of that object; objects are
  compared by identity (the tree type is taken to define no equality of its own).
\<close>

definition replace_lowest ::
  "'t individual list \<Rightarrow> nat list \<Rightarrow> nat \<Rightarrow> nat list \<times> 't individual list" where
  "replace_lowest h pop r =
     (let lowest = pop ! argmin (fitnesses_of h pop);
          (c, h') = deepcopy h r
      in (remove1 lowest pop @ [c], h'))"

fun reinsert_elites ::
  "'t individual list \<Rightarrow> nat list \<Rightarrow> nat list \<Rightarrow> nat list \<times> 't individual list" where
  "reinsert_elites h pop [] = (pop, h)"
| "reinsert_elites h pop (e # es) =
     (let (pop', h') = replace_lowest h pop e in reinsert_elites h' pop' es)"

text \<open>The population and the heap after the loop of line 326, \<open>for i in range(1, elite_count)\<close>.\<close>

definition population_after_elites ::
  "('t, 's, 'o) collaborators \<Rightarrow> config \<Rightarrow> ('t, 's) evolution \<Rightarrow> nat list \<times> 't individual list" where
  "population_after_elites w c st =
     reinsert_elites (heap_after_offspring w c st) (fst (offspring_population_of w c st))
       (map (\<lambda>i. fst (elites_of c st) ! i) [1 ..< nat (elite_count c)])"

text \<open>The individual \<open>best\<close> of line 333, the first of highest fitness after the loop.\<close>

definition generation_best ::
  "('t, 's, 'o) collaborators \<Rightarrow> config \<Rightarrow> ('t, 's) evolution \<Rightarrow> nat" where
  "generation_best w c st =
     fst (population_after_elites w c st)
       ! argmax (fitnesses_of (snd (population_after_elites w c st))
                   (fst (population_after_elites w c st)))"

text \<open>
  \<open>_perform_generation\<close>. Each error of the source is a branch:
  \<^item> line 256, no integer for \<open>elite_count\<close>: \<open>OverflowError\<close> or \<open>ValueError\<close>;
  \<^item> line 270, \<open>np.argmax\<close> of an empty population: \<open>ValueError\<close>;
  \<^item> lines 279 and 302, \<open>fitnesses[1]\<close> when the batch was empty, so that the
    transposed result list is empty: \<open>IndexError\<close>;
  \<^item> lines 283 and 310, a batch shorter than the loop bound: \<open>IndexError\<close>;
  \<^item> line 307, \<open>memory + self.memory\<close> while \<open>self.memory\<close> is still \<open>None\<close>:
    \<open>TypeError\<close>.
\<close>

definition perform_generation ::
  "('t, 's, 'o) collaborators \<Rightarrow> config \<Rightarrow> ('t, 's) evolution \<Rightarrow> error + ('t, 's) evolution" where
  "perform_generation w c st =
     (let elites = fst (elites_of c st);
          offspring_population = fst (offspring_population_of w c st)
      in if elite_count_error c \<noteq> None then Inl (the (elite_count_error c))
         else if population st = [] then Inl ValueError
         else if elite_fitnesses w c st = [] then Inl IndexError
         else if length elites < nat (elite_count c) then Inl IndexError
         else if offspring_fitnesses w c st = [] then Inl IndexError
         else case memory st of
           None \<Rightarrow> Inl TypeError
         | Some old \<Rightarrow>
             if length offspring_population < pop_size c then Inl IndexError
             else
               let (pop1, h5) = population_after_elites w c st;
                   best = generation_best w c st;
                   (pop2, h6) = replace_lowest h5 pop1 best;
                   (champion, h7) = deepcopy h6 best
               in Inr (st\<lparr> heap := h7,
                           population := pop2,
                           num_gens := num_gens st + 1,
                           num_evals := num_evals st + pop_size c,
                           best_of_gens := best_of_gens st @ [champion],
                           bestFitnesses := bestFitnesses st @ [fitness (h5 ! best)],
                           memory := Some (concat (map ev_memory (offspring_fitnesses w c st)) @ old) \<rparr>))"

subsection \<open>Gradient refinement of the initial champion\<close>

text \<open>The literals \<open>batch_size = 128\<close> and \<open>GAMMA = 0.99\<close> of lines 203 and 204.\<close>

definition batch_size :: nat where
  "batch_size = 128"

definition GAMMA :: real where
  "GAMMA = 99 / 100"

text \<open>\<open>[s for s in batch.next_state if s is not None]\<close> and the mask of line 219.\<close>

definition non_final_next_states :: "'s transition list \<Rightarrow> 's list" where
  "non_final_next_states transitions = List.map_filter next_state transitions"

definition non_final_mask :: "'s transition list \<Rightarrow> bool list" where
  "non_final_mask transitions = map (\<lambda>tr. next_state tr \<noteq> None) transitions"

text \<open>\<open>row.max()\<close> of a non-empty row of action values.\<close>

fun row_max :: "real list \<Rightarrow> real" where
  "row_max [] = 0"
| "row_max (x # xs) = fold max xs x"

text \<open>
  The masked assignment \<open>values[mask] = vs\<close>: the entries of \<open>vs\<close> go, in order, to
  the positions where the mask holds.
\<close>

fun masked_assign :: "real list \<Rightarrow> bool list \<Rightarrow> real list \<Rightarrow> real list" where
  "masked_assign (z # zs) (True # ms) (v # vs) = v # masked_assign zs ms vs"
| "masked_assign (z # zs) (m # ms) vs = z # masked_assign zs ms vs"
| "masked_assign zs ms vs = zs"

text \<open>Lines 228 to 233, for the sampled transitions.\<close>

definition state_action_values ::
  "('t, 's, 'o) collaborators \<Rightarrow> 't \<Rightarrow> 's transition list \<Rightarrow> real list" where
  "state_action_values w t transitions =
     map (\<lambda>tr. get_output_pt w t (state tr) ! action tr) transitions"

definition next_state_values ::
  "('t, 's, 'o) collaborators \<Rightarrow> 't \<Rightarrow> 's transition list \<Rightarrow> real list" where
  "next_state_values w target transitions =
     masked_assign (replicate batch_size 0) (non_final_mask transitions)
       (map (\<lambda>s. row_max (get_output_pt w target s)) (non_final_next_states transitions))"

definition expected_state_action_values ::
  "('t, 's, 'o) collaborators \<Rightarrow> 't \<Rightarrow> 's transition list \<Rightarrow> real list" where
  "expected_state_action_values w target transitions =
     map (\<lambda>(v, tr). v * GAMMA + reward tr)
       (zip (next_state_values w target transitions) transitions)"

text \<open>
  The body of one iteration (lines 214 to 242). What torch raises is a branch, in the
  order of the statements:
  \<^item> an empty sample leaves \<open>Transition(*zip(*transitions))\<close> without arguments:
    \<open>TypeError\<close>;
  \<^item> \<open>torch.cat\<close> of an empty list of next states (line 222): \<open>RuntimeError\<close>;
  \<^item> \<open>gather\<close> with an action that is no column of the output, or \<open>max\<close> of an
    output without columns: \<open>RuntimeError\<close>;
  \<^item> a mask whose length is not that of \<open>torch.zeros(batch_size)\<close>: \<open>IndexError\<close>.
  The optimizer then changes the constants of \<open>best\<close> in place.
\<close>

definition refine_step ::
  "('t, 's, 'o) collaborators \<Rightarrow> 't individual list \<Rightarrow> nat \<Rightarrow> 'o \<Rightarrow> nat \<Rightarrow> 's transition list
     \<Rightarrow> error + ('t individual list \<times> 'o)" where
  "refine_step w h best optimizer k mem =
     (let (target_tree, h1) = deepcopy h best;
          transitions = sample w k mem batch_size
      in if transitions = [] then Inl TypeError
         else if non_final_next_states transitions = [] then Inl RuntimeError
         else if \<exists>tr \<in> set transitions.
                   length (get_output_pt w (tree (h1 ! best)) (state tr)) \<le> action tr
           then Inl RuntimeError
         else if \<exists>s \<in> set (non_final_next_states transitions).
                   get_output_pt w (tree (h1 ! target_tree)) s = []
           then Inl RuntimeError
         else if length transitions \<noteq> batch_size then Inl IndexError
         else
           let (optimizer', t') =
                 optimizer_step w optimizer (tree (h1 ! best))
                   (state_action_values w (tree (h1 ! best)) transitions)
                   (expected_state_action_values w (tree (h1 ! target_tree)) transitions)
           in Inr (h1[best := (h1 ! best)\<lparr> tree := t' \<rparr>], optimizer'))"

text \<open>
  The loop of line 211 over the iteration numbers; \<open>constants\<close> is computed once,
  before the loop, and the memory does not change in it.
\<close>

fun refine_loop ::
  "('t, 's, 'o) collaborators \<Rightarrow> nat list \<Rightarrow> real list \<Rightarrow> 's transition list \<Rightarrow> 'o
     \<Rightarrow> 't individual list \<Rightarrow> nat \<Rightarrow> error + 't individual list" where
  "refine_loop w [] constants mem optimizer h best = Inr h"
| "refine_loop w (k # ks) constants mem optimizer h best =
     (if 0 < length constants \<and> batch_size < length mem
      then (case refine_step w h best optimizer k mem of
              Inl e \<Rightarrow> Inl e
            | Inr (h', optimizer') \<Rightarrow> refine_loop w ks constants mem optimizer' h' best)
      else refine_loop w ks constants mem optimizer h best)"

subsection \<open>Initialisation\<close>

text \<open>The assignments of lines 194 and 195: only the fitness is stored.\<close>

definition store_fitness ::
  "'t individual list \<Rightarrow> nat list \<Rightarrow> 's evaluation list \<Rightarrow> nat \<Rightarrow> 't individual list" where
  "store_fitness h batch res n =
     fold (\<lambda>i h'. h'[batch ! i := (h' ! (batch ! i))\<lparr> fitness := ev_fitness (res ! i) \<rparr>])
       [0 ..< n] h"

text \<open>
  The stages of \<open>_initialize_population\<close>: the new population and the heap that holds
  it (line 171), the results of its evaluation (line 183), the first replay memory
  (lines 185 to 190), the heap after the fitness values are stored, and the
  individual \<open>best\<close> of line 199.
\<close>

definition initial_population ::
  "('t, 's, 'o) collaborators \<Rightarrow> config \<Rightarrow> ('t, 's) evolution \<Rightarrow> nat list \<times> 't individual list" where
  "initial_population w c st =
     alloc_list (heap st) (map (generate_random_multitree w) [0 ..< pop_size c])"

definition initial_fitnesses ::
  "('t, 's, 'o) collaborators \<Rightarrow> config \<Rightarrow> ('t, 's) evolution \<Rightarrow> 's evaluation list" where
  "initial_fitnesses w c st =
     evaluate w 0 False (snd (initial_population w c st)) (fst (initial_population w c st))"

definition initial_memory ::
  "('t, 's, 'o) collaborators \<Rightarrow> config \<Rightarrow> ('t, 's) evolution \<Rightarrow> 's transition list" where
  "initial_memory w c st = concat (map ev_memory (initial_fitnesses w c st))"

definition heap_after_init ::
  "('t, 's, 'o) collaborators \<Rightarrow> config \<Rightarrow> ('t, 's) evolution \<Rightarrow> 't individual list" where
  "heap_after_init w c st =
     store_fitness (snd (initial_population w c st)) (fst (initial_population w c st))
       (initial_fitnesses w c st) (pop_size c)"

definition initial_best ::
  "('t, 's, 'o) collaborators \<Rightarrow> config \<Rightarrow> ('t, 's) evolution \<Rightarrow> nat" where
  "initial_best w c st =
     fst (initial_population w c st)
       ! argmax (fitnesses_of (heap_after_init w c st) (fst (initial_population w c st)))"

text \<open>
  \<open>_initialize_population\<close>. With \<open>pop_size = 0\<close> the transposed result list is empty
  and \<open>fitnesses[1]\<close> (line 185) raises \<open>IndexError\<close>.
\<close>

definition initialize_population ::
  "('t, 's, 'o) collaborators \<Rightarrow> config \<Rightarrow> ('t, 's) evolution \<Rightarrow> error + ('t, 's) evolution" where
  "initialize_population w c st =
     (if initial_fitnesses w c st = [] then Inl IndexError
      else
        let best = initial_best w c st;
            constants = get_subtrees_consts w (tree (heap_after_init w c st ! best))
        in case refine_loop w [0 ..< 500] constants (initial_memory w c st)
                  (new_optimizer w constants) (heap_after_init w c st) best of
             Inl e \<Rightarrow> Inl e
           | Inr h3 \<Rightarrow>
               let (champion, h4) = deepcopy h3 best
               in Inr (st\<lparr> heap := h4,
                           population := fst (initial_population w c st),
                           num_evals := num_evals st + pop_size c,
                           best_of_gens := best_of_gens st @ [champion],
                           memory := Some (initial_memory w c st) \<rparr>))"

subsection \<open>Termination and the generational loop\<close>

text \<open>
  \<open>_must_terminate\<close>. A bound that is \<open>None\<close> or zero is false in the test
  \<open>self.max_time and ...\<close>, so it never triggers.
\<close>

definition must_terminate ::
  "('t, 's, 'o) collaborators \<Rightarrow> config \<Rightarrow> ('t, 's) evolution \<Rightarrow> bool \<times> ('t, 's) evolution" where
  "must_terminate w c st =
     (let st' = st\<lparr> elapsed_time := clock w (Suc (num_gens st)) - start_time st \<rparr>
      in (if (case max_time c of None \<Rightarrow> False | Some t \<Rightarrow> t \<noteq> 0 \<and> t \<le> elapsed_time st') then True
          else if (case max_evals c of None \<Rightarrow> False | Some n \<Rightarrow> n \<noteq> 0 \<and> n \<le> int (num_evals st'))
            then True
          else if (case max_gens c of None \<Rightarrow> False | Some n \<Rightarrow> n \<noteq> 0 \<and> n \<le> int (num_gens st'))
            then True
          else False, st'))"

text \<open>
  The report printed when \<open>verbose\<close> is set computes \<open>statistics.stdev\<close> and
  \<open>statistics.variance\<close> of the population's fitness values, which raise
  \<open>StatisticsError\<close> on fewer than two values; nothing else of it is modelled.
\<close>

definition log_info :: "config \<Rightarrow> ('t, 's) evolution \<Rightarrow> error + ('t, 's) evolution" where
  "log_info c st =
     (if verbose c \<and> length (population st) < 2 then Inl StatisticsError else Inr st)"

text \<open>
  The loop of \<open>evolve\<close> may run forever (no bound configured), so it is a partial
  function: \<open>None\<close> is a run that does not return, \<open>Some (Inl e)\<close> a run that raises.
\<close>

partial_function (option) generational_loop ::
  "('t, 's, 'o) collaborators \<Rightarrow> config \<Rightarrow> ('t, 's) evolution \<Rightarrow> (error + ('t, 's) evolution) option" where
  "generational_loop w c st =
     (if fst (must_terminate w c st) then Some (Inr (snd (must_terminate w c st)))
      else case perform_generation w c (snd (must_terminate w c st)) of
             Inl e \<Rightarrow> Some (Inl e)
           | Inr st1 \<Rightarrow>
               (case log_info c st1 of
                  Inl e \<Rightarrow> Some (Inl e)
                | Inr st2 \<Rightarrow> generational_loop w c st2))"

definition evolve ::
  "('t, 's, 'o) collaborators \<Rightarrow> config \<Rightarrow> ('t, 's) evolution \<Rightarrow> (error + ('t, 's) evolution) option" where
  "evolve w c st =
     (let st0 = st\<lparr> start_time := clock w 0 \<rparr>
      in if population st0 = []
         then (case initialize_population w c st0 of
                 Inl e \<Rightarrow> Some (Inl e)
               | Inr st1 \<Rightarrow> generational_loop w c st1)
         else generational_loop w c st0)"

subsection \<open>A small run\<close>

text \<open>
  Concrete collaborators, used to run the definitions: trees are numbers, the fitness
  of a tree is read from a table that depends on the seeds (under the seeds of the
  initialisation tree 0 scores 10, under later seeds it scores 4), every evaluation
  contributes one terminal transition that records the evaluated tree and the seed
  index, and the offspring of a generation are the trees \<open>100, 101, ...\<close>.
\<close>

definition ex_object :: "nat \<Rightarrow> nat individual" where
  "ex_object t = \<lparr> tree = t, fitness = 0, games = 0, wins = 0 \<rparr>"

definition ex_fit :: "nat \<Rightarrow> nat \<Rightarrow> real" where
  "ex_fit k t = (if t = 0 then (if k = 0 then 10 else 4)
                 else if t = 1 then 9 else if t = 2 then 1 else if t = 3 then 0
                 else if t = 100 then 5 else if t = 101 then 6 else if t = 102 then 7 else 8)"

definition ex_terminal :: "nat \<Rightarrow> nat \<Rightarrow> nat transition" where
  "ex_terminal s k = \<lparr> state = s, action = 0, next_state = None, reward = real k \<rparr>"

definition ex_step :: "nat transition" where
  "ex_step = \<lparr> state = 0, action = 1, next_state = Some 7, reward = 2 \<rparr>"

definition ex_world :: "(nat, nat, unit) collaborators" where
  "ex_world =
     \<lparr> generate_random_multitree = ex_object,
       sel_fun = (\<lambda>g pop n. take n pop),
       generate_offspring = (\<lambda>g i t parents. ex_object (100 + i)),
       fitness_function = (\<lambda>k hard i x. (ex_fit k (tree x), [ex_terminal (tree x) k], 1, 1)),
       clock = real,
       get_subtrees_consts = (\<lambda>t. []),
       get_output_pt = (\<lambda>t s. [real t, real s]),
       sample = (\<lambda>k mem n. take n mem),
       new_optimizer = (\<lambda>cs. ()),
       optimizer_step = (\<lambda>optimizer t predicted expected. (optimizer, Suc t)) \<rparr>"

definition ex_config :: config where
  "ex_config =
     \<lparr> pop_size = 4, elitism = 1 / 2, max_evals = None, max_gens = Some 5,
       max_time = None, verbose = False \<rparr>"

text \<open>
  The states of this run: after the initialisation, and after the first generation
  (computed from them; the lemmas \<open>ex_initialize\<close> and \<open>ex_generation\<close> below
  prove that the functions return them).
\<close>

definition ex_ind :: "nat \<Rightarrow> real \<Rightarrow> int \<Rightarrow> nat individual" where
  "ex_ind t f g = \<lparr> tree = t, fitness = f, games = g, wins = g \<rparr>"

definition ex_heap1 :: "nat individual list" where
  "ex_heap1 = [ex_ind 0 10 0, ex_ind 1 9 0, ex_ind 2 1 0, ex_ind 3 0 0, ex_ind 0 10 0]"

definition ex_st1 :: "(nat, nat) evolution" where
  "ex_st1 =
     \<lparr> heap = ex_heap1, population = [0, 1, 2, 3], num_gens = 0, num_evals = 4,
       start_time = 0, elapsed_time = 0, best_of_gens = [4],
       bestFitnesses = [- 1000, - 700],
       memory = Some [ex_terminal 0 0, ex_terminal 1 0, ex_terminal 2 0, ex_terminal 3 0] \<rparr>"

definition ex_heap4 :: "nat individual list" where
  "ex_heap4 = ex_heap1 @ [ex_ind 0 4 1, ex_ind 1 9 1,
                          ex_ind 100 5 1, ex_ind 101 6 1, ex_ind 102 7 1, ex_ind 103 8 1]"

definition ex_st2 :: "(nat, nat) evolution" where
  "ex_st2 =
     \<lparr> heap = ex_heap4 @ [ex_ind 1 9 1, ex_ind 1 9 1, ex_ind 1 9 1],
       population = [9, 10, 11, 12], num_gens = 1, num_evals = 8,
       start_time = 0, elapsed_time = 0, best_of_gens = [4, 13],
       bestFitnesses = [- 1000, - 700, 9],
       memory = Some [ex_terminal 100 1, ex_terminal 101 1, ex_terminal 102 1, ex_terminal 103 1,
                      ex_terminal 0 0, ex_terminal 1 0, ex_terminal 2 0, ex_terminal 3 0] \<rparr>"

text \<open>A seed population for a run that is started with \<open>initialPopulation\<close>.\<close>

definition ex_seed :: "nat individual list" where
  "ex_seed = [ex_ind 0 10 0, ex_ind 1 9 0, ex_ind 2 1 0, ex_ind 3 0 0]"

section \<open>Properties\<close>

subsection \<open>Basic facts about the operations\<close>

lemma argmax_less: "xs \<noteq> [] \<Longrightarrow> argmax xs < length xs"
  by (induction xs) auto

lemma argmin_less: "xs \<noteq> [] \<Longrightarrow> argmin xs < length xs"
  by (induction xs) auto

lemma argmax_greatest: "x \<in> set xs \<Longrightarrow> x \<le> xs ! argmax xs"
proof (induction xs)
  case Nil
  then show ?case by simp
next
  case (Cons a xs)
  show ?case
  proof (cases "xs = []")
    case True
    with Cons.prems show ?thesis by simp
  next
    case False
    with Cons show ?thesis by (auto simp: not_le)
  qed
qed

lemma argmin_least: "x \<in> set xs \<Longrightarrow> xs ! argmin xs \<le> x"
proof (induction xs)
  case Nil
  then show ?case by simp
next
  case (Cons a xs)
  show ?case
  proof (cases "xs = []")
    case True
    with Cons.prems show ?thesis by simp
  next
    case False
    with Cons show ?thesis by (auto simp: not_le)
  qed
qed

lemma length_fitnesses_of [simp]: "length (fitnesses_of h rs) = length rs"
  by (simp add: fitnesses_of_def)

lemma length_evaluate [simp]: "length (evaluate w k hard h batch) = length batch"
  by (simp add: evaluate_def)

lemma fitnesses_of_eq_Nil [simp]: "fitnesses_of h rs = [] \<longleftrightarrow> rs = []"
  by (simp add: fitnesses_of_def)

lemma evaluate_eq_Nil [simp]: "evaluate w k hard h batch = [] \<longleftrightarrow> batch = []"
  by (simp add: evaluate_def)

lemma length_store_fitness [simp]: "length (store_fitness h batch res n) = length h"
proof -
  have "length (fold (\<lambda>i h'. h'[batch ! i := (h' ! (batch ! i))\<lparr> fitness := ev_fitness (res ! i) \<rparr>]) ns h)
          = length h" for ns
    by (induction ns arbitrary: h) auto
  then show ?thesis by (simp add: store_fitness_def)
qed

subsection \<open>Double-precision rounding\<close>

text \<open>
  The exponent function finds the binade of a positive number, rounding maps an integer
  to itself, and rounding does not cross a natural number below \<open>2 ^ 53\<close>: these
  numbers are doubles.
\<close>

lemma bit_length_nonneg: "0 \<le> bit_length n"
  by (induction n rule: bit_length.induct) (simp add: bit_length.simps)

lemma bit_length_le: "n < 2 ^ k \<Longrightarrow> bit_length n \<le> int k"
proof (induction k arbitrary: n)
  case 0
  then show ?case by (simp add: bit_length.simps)
next
  case (Suc k)
  have "n div 2 < 2 ^ k" using Suc.prems by simp
  from Suc.IH [OF this] show ?case
    by (simp add: bit_length.simps [of n])
qed

lemma bit_length_bounds:
  "0 < n \<Longrightarrow> 2 ^ nat (bit_length n - 1) \<le> n \<and> n < 2 ^ nat (bit_length n)"
proof (induction n rule: bit_length.induct)
  case (1 n)
  show ?case
  proof (cases "n div 2 = 0")
    case True
    with 1(2) have "n = 1" by simp
    then show ?thesis by (simp add: bit_length.simps)
  next
    case False
    with 1(2) have pos: "0 < n div 2" by simp
    from 1(1) 1(2) pos have IH: "2 ^ nat (bit_length (n div 2) - 1) \<le> n div 2"
      "n div 2 < 2 ^ nat (bit_length (n div 2))" by simp_all
    have b: "bit_length n = 1 + bit_length (n div 2)"
      using 1(2) by (simp add: bit_length.simps [of n])
    have b1: "1 \<le> bit_length (n div 2)"
      using pos bit_length_nonneg [of "n div 2 div 2"] by (simp add: bit_length.simps [of "n div 2"])
    have e1: "nat (bit_length n - 1) = Suc (nat (bit_length (n div 2) - 1))"
      using b b1 by simp
    have e2: "nat (bit_length n) = Suc (nat (bit_length (n div 2)))"
      using b b1 by simp
    show ?thesis
      unfolding e1 e2 power_Suc using IH by linarith
  qed
qed

lemma round_half_even_le: "x \<le> of_int n \<Longrightarrow> round_half_even x \<le> n"
  unfolding round_half_even_def Let_def
  by (auto simp: floor_le_iff)

lemma round_half_even_nonneg: "0 \<le> x \<Longrightarrow> 0 \<le> round_half_even x"
  unfolding round_half_even_def Let_def by auto

lemma round_half_even_of_int: "round_half_even (of_int n) = n"
  unfolding round_half_even_def Let_def by simp

lemma double_exponent_bounds:
  assumes "0 < x"
  shows "2 powi double_exponent x \<le> x \<and> x < 2 powi (double_exponent x + 1)"
proof (cases "1 \<le> x")
  case True
  let ?n = "\<lfloor>x\<rfloor>"
  let ?b = "bit_length ?n"
  have n: "0 < ?n" using True by simp
  from bit_length_bounds [OF n] have lo: "2 ^ nat (?b - 1) \<le> ?n" and hi: "?n < 2 ^ nat ?b"
    by simp_all
  have b: "1 \<le> ?b"
    using n bit_length_nonneg [of "?n div 2"] by (simp add: bit_length.simps [of ?n])
  have e: "double_exponent x = ?b - 1"
    using True by (simp add: double_exponent_def)
  have "(2::real) ^ nat (?b - 1) \<le> of_int ?n"
    using lo by (metis of_int_le_iff of_int_numeral of_int_power)
  also have "\<dots> \<le> x" by simp
  finally have 1: "2 powi double_exponent x \<le> x"
    using b by (simp add: e power_int_def)
  have "?n + 1 \<le> 2 ^ nat ?b" using hi by simp
  then have "of_int (?n + 1) \<le> (2::real) ^ nat ?b"
    by (metis of_int_le_iff of_int_numeral of_int_power)
  moreover have "x < of_int (?n + 1)" by linarith
  ultimately have "x < 2 ^ nat ?b" by linarith
  then have 2: "x < 2 powi (double_exponent x + 1)"
    using b by (simp add: e power_int_def)
  from 1 2 show ?thesis ..
next
  case False
  let ?y = "1 / x"
  let ?m = "\<lceil>?y\<rceil> - 1"
  let ?b = "bit_length ?m"
  have y: "1 < ?y" using False assms by simp
  then have m: "0 < ?m" by linarith
  from bit_length_bounds [OF m] have lo: "2 ^ nat (?b - 1) \<le> ?m" and hi: "?m < 2 ^ nat ?b"
    by simp_all
  have b: "1 \<le> ?b"
    using m bit_length_nonneg [of "?m div 2"] by (simp add: bit_length.simps [of ?m])
  have e: "double_exponent x = - ?b"
    using False by (simp add: double_exponent_def)
  have "?m + 1 \<le> 2 ^ nat ?b" using hi by simp
  then have "of_int (?m + 1) \<le> (2::real) ^ nat ?b"
    by (metis of_int_le_iff of_int_numeral of_int_power)
  moreover have "?y \<le> of_int (?m + 1)" by simp
  ultimately have "?y \<le> 2 ^ nat ?b" by linarith
  then have "1 / 2 ^ nat ?b \<le> x"
    using assms by (simp add: field_simps)
  then have 1: "2 powi double_exponent x \<le> x"
    using b by (simp add: e power_int_def field_simps)
  have "(2::real) ^ nat (?b - 1) \<le> of_int ?m"
    using lo by (metis of_int_le_iff of_int_numeral of_int_power)
  also have "\<dots> < ?y" by linarith
  finally have "x < 1 / 2 ^ nat (?b - 1)"
    using assms by (simp add: field_simps)
  moreover have "2 powi (double_exponent x + 1) = 1 / (2::real) ^ nat (?b - 1)"
  proof -
    have "double_exponent x + 1 = - int (nat (?b - 1))"
      using b by (simp add: e)
    then show ?thesis
      by (simp only: power_int_minus power_int_of_nat) (simp add: field_simps)
  qed
  ultimately have 2: "x < 2 powi (double_exponent x + 1)" by simp
  from 1 2 show ?thesis ..
qed

lemma double_round_nonpos: "x \<le> 0 \<Longrightarrow> double_round x \<le> 0"
proof -
  assume x: "x \<le> 0"
  have "round_half_even (x / u) \<le> 0" if "0 < u" for u :: real
    by (rule round_half_even_le) (use x that in \<open>simp add: divide_nonpos_pos\<close>)
  then show ?thesis
    by (simp add: double_round_def Let_def mult_nonpos_nonneg)
qed

lemma double_round_nonneg: "0 \<le> x \<Longrightarrow> 0 \<le> double_round x"
  by (simp add: double_round_def Let_def round_half_even_nonneg)

lemma double_round_le_nat:
  assumes le: "x \<le> real n" and n: "n < 2 ^ 53"
  shows "double_round x \<le> real n"
proof (cases "0 < x")
  case False
  then have "double_round x \<le> 0" by (simp add: double_round_nonpos)
  then show ?thesis by linarith
next
  case True
  define e where "e = max (double_exponent \<bar>x\<bar>) (- 1022)"
  define k where "k = nat (52 - e)"
  have "2 powi double_exponent x \<le> x"
    using double_exponent_bounds [OF True] by simp
  also have "x \<le> real n" by (rule le)
  also have "real n < 2 ^ 53"
    using n by (metis of_nat_less_iff of_nat_numeral of_nat_power)
  finally have "(2::real) powi double_exponent x < 2 powi 53"
    by simp
  then have "double_exponent x < 53"
    by (rule power_int_le_imp_less_exp [rotated]) simp_all
  then have e52: "e \<le> 52"
    using True by (simp add: e_def)
  have ulp: "(2::real) powi (e - 52) = 1 / 2 ^ k"
  proof -
    have "e - 52 = - int k" using e52 by (simp add: k_def)
    then show ?thesis
      by (simp only: power_int_minus power_int_of_nat) (simp add: field_simps)
  qed
  have "x / (1 / 2 ^ k) \<le> real n * 2 ^ k"
    using le by simp
  also have "\<dots> = of_int (int n * 2 ^ k)" by simp
  finally have "round_half_even (x / (1 / 2 ^ k)) \<le> int n * 2 ^ k"
    by (rule round_half_even_le)
  then have "real_of_int (round_half_even (x / (1 / 2 ^ k))) \<le> real_of_int (int n * 2 ^ k)"
    by (simp only: of_int_le_iff)
  then have "real_of_int (round_half_even (x / (1 / 2 ^ k))) \<le> real n * 2 ^ k"
    by simp
  then have "real_of_int (round_half_even (x / (1 / 2 ^ k))) * (1 / 2 ^ k) \<le> real n"
    by (simp add: field_simps)
  then show ?thesis
    using True unfolding double_round_def Let_def e_def [symmetric] ulp by simp
qed

lemma double_round_nat:
  assumes n: "n < 2 ^ 53"
  shows "double_round (real n) = real n"
proof (cases "n = 0")
  case True
  then show ?thesis by (simp add: double_round_def)
next
  case False
  then have pos: "0 < real n" by simp
  define e where "e = max (double_exponent \<bar>real n\<bar>) (- 1022)"
  define k where "k = nat (52 - e)"
  have "2 powi double_exponent (real n) \<le> real n"
    using double_exponent_bounds [OF pos] by simp
  also have "real n < 2 ^ 53"
    using n by (metis of_nat_less_iff of_nat_numeral of_nat_power)
  finally have "(2::real) powi double_exponent (real n) < 2 powi 53"
    by simp
  then have "double_exponent (real n) < 53"
    by (rule power_int_le_imp_less_exp [rotated]) simp_all
  then have e52: "e \<le> 52"
    by (simp add: e_def)
  have ulp: "(2::real) powi (e - 52) = 1 / 2 ^ k"
  proof -
    have "e - 52 = - int k" using e52 by (simp add: k_def)
    then show ?thesis
      by (simp only: power_int_minus power_int_of_nat) (simp add: field_simps)
  qed
  have "real n / (1 / 2 ^ k) = of_int (int n * 2 ^ k)" by simp
  then have "round_half_even (real n / (1 / 2 ^ k)) = int n * 2 ^ k"
    by (simp only: round_half_even_of_int)
  then have "real_of_int (round_half_even (real n / (1 / 2 ^ k))) * (1 / 2 ^ k) = real n"
    by simp
  then show ?thesis
    using False unfolding double_round_def Let_def e_def [symmetric] ulp by simp
qed

lemmas double_arith =
  double_round_def double_exponent_def round_half_even_def double_overflow_def bit_length.simps

text \<open>
  Three products of Python, \<open>int(0.29 * 100) == 28\<close>, \<open>int(0.7 * 10) == 7\<close> and
  \<open>int(0.1 * 3) == 0\<close>; the exact products of the decimal fractions are 29, 7 and
  0.3, and the exact product of the doubles nearest to 0.7 and 10 is less than 7.
\<close>

lemma elite_count_29_100:
  "elite_count \<lparr> pop_size = 100, elitism = 29 / 100, max_evals = None, max_gens = None,
                  max_time = None, verbose = False \<rparr> = 28"
  by (simp add: elite_count_def py_int_def double_arith Let_def)

lemma elite_count_7_10:
  "elite_count \<lparr> pop_size = 10, elitism = 7 / 10, max_evals = None, max_gens = None,
                  max_time = None, verbose = False \<rparr> = 7"
  by (simp add: elite_count_def py_int_def double_arith Let_def)

lemma elite_count_1_3:
  "elite_count \<lparr> pop_size = 3, elitism = 1 / 10, max_evals = None, max_gens = None,
                  max_time = None, verbose = False \<rparr> = 0"
  by (simp add: elite_count_def py_int_def double_arith Let_def)

subsection \<open>The refinement at initialisation\<close>

lemma refine_loop_skip:
  "\<not> (0 < length constants \<and> batch_size < length mem) \<Longrightarrow>
     refine_loop w ks constants mem optimizer h best = Inr h"
  by (induction ks) auto

lemma initial_population_refs:
  "fst (initial_population w c st) = [length (heap st) ..< length (heap st) + pop_size c]"
  "length (snd (initial_population w c st)) = length (heap st) + pop_size c"
  by (simp_all add: initial_population_def alloc_list_def)

lemma initial_best_valid:
  assumes "0 < pop_size c"
  shows "initial_best w c st < length (heap_after_init w c st)"
proof -
  let ?pop = "fst (initial_population w c st)"
  have ne: "fitnesses_of (heap_after_init w c st) ?pop \<noteq> []"
    using assms by (simp add: fitnesses_of_def initial_population_refs)
  have "argmax (fitnesses_of (heap_after_init w c st) ?pop) < length ?pop"
    using argmax_less [OF ne] by simp
  then have "initial_best w c st \<in> set ?pop"
    by (simp add: initial_best_def)
  then show ?thesis
    by (auto simp: initial_population_refs heap_after_init_def)
qed

text \<open>
  Claim C7. When the champion of a non-empty initial population has no differentiable
  constants, or the replay memory holds at most \<open>batch_size = 128\<close> transitions, the
  initialisation returns without error, the champion object is the one that the
  evaluation left (so its constants are unchanged), and the archived copy equals it.
\<close>

theorem refinement_skipped:
  assumes "0 < pop_size c"
    and "get_subtrees_consts w (tree (heap_after_init w c st ! initial_best w c st)) = []
         \<or> length (initial_memory w c st) \<le> batch_size"
  shows "\<exists>st'. initialize_population w c st = Inr st'
           \<and> heap st' ! initial_best w c st = heap_after_init w c st ! initial_best w c st
           \<and> heap st' ! last (best_of_gens st') = heap_after_init w c st ! initial_best w c st"
proof -
  let ?h2 = "heap_after_init w c st"
  let ?best = "initial_best w c st"
  let ?cs = "get_subtrees_consts w (tree (?h2 ! ?best))"
  have ne: "initial_fitnesses w c st \<noteq> []"
    using assms(1) by (simp add: initial_fitnesses_def initial_population_refs flip: length_0_conv)
  have skip: "refine_loop w [0 ..< 500] ?cs (initial_memory w c st) (new_optimizer w ?cs) ?h2 ?best
                = Inr ?h2"
    using assms(2) by (intro refine_loop_skip) auto
  have valid: "?best < length ?h2"
    by (rule initial_best_valid [OF assms(1)])
  show ?thesis
    using ne skip valid
    by (simp add: initialize_population_def Let_def deepcopy_def nth_append)
qed

theorem refinement_skipped_witness:
  "\<exists>st'. initialize_population ex_world ex_config (new_evolution []) = Inr st'
     \<and> heap st' ! initial_best ex_world ex_config (new_evolution [])
         = heap_after_init ex_world ex_config (new_evolution [])
             ! initial_best ex_world ex_config (new_evolution [])
     \<and> heap st' ! last (best_of_gens st')
         = heap_after_init ex_world ex_config (new_evolution [])
             ! initial_best ex_world ex_config (new_evolution [])"
proof -
  have size: "0 < pop_size ex_config"
    by (simp add: ex_config_def)
  have no_constants: "get_subtrees_consts ex_world
                  (tree (heap_after_init ex_world ex_config (new_evolution [])
                           ! initial_best ex_world ex_config (new_evolution []))) = []
                \<or> length (initial_memory ex_world ex_config (new_evolution [])) \<le> batch_size"
    by (simp add: ex_world_def)
  show ?thesis
    using refinement_skipped [OF size no_constants] .
qed

lemma non_final_empty:
  "\<forall>tr \<in> set transitions. next_state tr = None \<Longrightarrow> non_final_next_states transitions = []"
  by (simp add: non_final_next_states_def List.map_filter_def filter_empty_conv)

text \<open>
  Claim C10. When every transition of the sampled minibatch is terminal, the iteration
  raises (the list handed to \<open>torch.cat\<close> at line 222 is empty) instead of going on with
  zero future values, and with it the refinement loop.
\<close>

theorem all_terminal_minibatch_fails:
  assumes "\<forall>tr \<in> set (sample w k mem batch_size). next_state tr = None"
  shows "refine_step w h best optimizer k mem =
           Inl (if sample w k mem batch_size = [] then TypeError else RuntimeError)
         \<and> (0 < length constants \<and> batch_size < length mem \<longrightarrow>
              refine_loop w (k # ks) constants mem optimizer h best =
                Inl (if sample w k mem batch_size = [] then TypeError else RuntimeError))"
  using non_final_empty [OF assms]
  by (simp add: refine_step_def deepcopy_def Let_def)

theorem all_terminal_minibatch_fails_witness:
  "refine_step ex_world [ex_object 0] 0 () 0 (replicate 129 (ex_terminal 0 0)) = Inl RuntimeError
   \<and> refine_loop ex_world [0, 1] [1] (replicate 129 (ex_terminal 0 0)) () [ex_object 0] 0
       = Inl RuntimeError"
  using all_terminal_minibatch_fails
          [of ex_world 0 "replicate 129 (ex_terminal 0 0)" "[ex_object 0]" 0 "()" "[1]" "[1]"]
  by (simp add: ex_world_def batch_size_def ex_terminal_def)

subsection \<open>One generation: sizes, counters and the heap\<close>

lemma length_replace_lowest:
  "pop \<noteq> [] \<Longrightarrow> length (fst (replace_lowest h pop r)) = length pop"
proof -
  assume ne: "pop \<noteq> []"
  then have "argmin (fitnesses_of h pop) < length pop"
    using argmin_less [of "fitnesses_of h pop"] by simp
  then have "pop ! argmin (fitnesses_of h pop) \<in> set pop"
    by simp
  then have "length (remove1 (pop ! argmin (fitnesses_of h pop)) pop) = length pop - 1"
    by (simp add: length_remove1)
  with ne show ?thesis
    by (cases pop) (simp_all add: replace_lowest_def deepcopy_def Let_def)
qed

lemma length_reinsert_elites:
  "pop \<noteq> [] \<Longrightarrow> length (fst (reinsert_elites h pop es)) = length pop"
proof (induction es arbitrary: h pop)
  case Nil
  then show ?case by simp
next
  case (Cons e es)
  obtain pop' h' where step: "replace_lowest h pop e = (pop', h')"
    by (cases "replace_lowest h pop e")
  have len: "length pop' = length pop"
    using length_replace_lowest [OF Cons.prems, of h e] step by simp
  with Cons.prems have "pop' \<noteq> []" by auto
  from Cons.IH [OF this, of h'] len step show ?case by simp
qed

lemma length_offspring_population:
  "length (fst (offspring_population_of w c st)) = length (parents_of w c st)"
  by (simp add: offspring_population_of_def alloc_list_def offspring_of_def Let_def)

lemma perform_generation_Inr:
  assumes "perform_generation w c st = Inr st'"
  shows "population st \<noteq> []"
    and "elite_fitnesses w c st \<noteq> []"
    and "nat (elite_count c) \<le> length (fst (elites_of c st))"
    and "offspring_fitnesses w c st \<noteq> []"
    and "memory st \<noteq> None"
    and "pop_size c \<le> length (fst (offspring_population_of w c st))"
    and "population st' =
           fst (replace_lowest (snd (population_after_elites w c st))
                  (fst (population_after_elites w c st)) (generation_best w c st))"
    and "num_gens st' = Suc (num_gens st)"
    and "num_evals st' = num_evals st + pop_size c"
    and "length (best_of_gens st') = Suc (length (best_of_gens st))"
    and "memory st' = Some (concat (map ev_memory (offspring_fitnesses w c st)) @ the (memory st))"
    and "elite_count_error c = None"
  using assms
  by (auto simp add: perform_generation_def Let_def split: if_splits option.splits prod.splits)


lemma length_set_scores [simp]: "length (set_scores h r e) = length h"
  by (simp add: set_scores_def)

lemma store_scores_Suc:
  "store_scores h batch res (Suc n) = set_scores (store_scores h batch res n) (batch ! n) (res ! n)"
  by (simp add: store_scores_def)

lemma store_scores_0 [simp]: "store_scores h batch res 0 = h"
  by (simp add: store_scores_def)

lemma length_store_scores [simp]: "length (store_scores h batch res n) = length h"
  by (induction n) (simp_all add: store_scores_Suc)

lemma store_scores_other:
  "r \<notin> set (take n batch) \<Longrightarrow> n \<le> length batch \<Longrightarrow> store_scores h batch res n ! r = h ! r"
proof (induction n)
  case 0
  then show ?case by simp
next
  case (Suc n)
  then have "r \<noteq> batch ! n" and "r \<notin> set (take n batch)"
    by (auto simp: take_Suc_conv_app_nth)
  with Suc show ?case
    by (simp add: store_scores_Suc set_scores_def)
qed

lemma store_scores_fitness:
  assumes "distinct batch" and "n \<le> length batch" and "\<forall>r \<in> set batch. r < length h" and "i < n"
  shows "fitness (store_scores h batch res n ! (batch ! i)) = ev_fitness (res ! i)"
  using assms(2,4)
proof (induction n)
  case 0
  then show ?case by simp
next
  case (Suc n)
  have valid: "batch ! n < length h"
    using assms(3) Suc.prems(1) by simp
  show ?case
  proof (cases "i = n")
    case True
    with valid show ?thesis
      by (simp add: store_scores_Suc set_scores_def)
  next
    case False
    with Suc.prems have "i < n" by simp
    moreover have "batch ! i \<noteq> batch ! n"
      using assms(1) Suc.prems False by (simp add: nth_eq_iff_index_eq)
    ultimately show ?thesis
      using Suc by (simp add: store_scores_Suc set_scores_def)
  qed
qed

lemma replace_lowest_keeps_max:
  assumes valid: "\<forall>r \<in> set pop. r < length h"
    and two: "2 \<le> length pop"
    and r: "r \<in> set pop"
  shows "\<exists>r' \<in> set (fst (replace_lowest h pop e)).
           fitness (h ! r) \<le> fitness (snd (replace_lowest h pop e) ! r')"
proof -
  let ?lowest = "pop ! argmin (fitnesses_of h pop)"
  let ?rest = "remove1 ?lowest pop"
  have ne: "pop \<noteq> []" using two by auto
  have low_in: "?lowest \<in> set pop"
    using argmin_less [of "fitnesses_of h pop"] ne by simp
  have least: "fitness (h ! ?lowest) \<le> fitness (h ! x)" if "x \<in> set pop" for x
  proof -
    have "fitness (h ! x) \<in> set (fitnesses_of h pop)"
      using that by (auto simp: fitnesses_of_def)
    from argmin_least [OF this] show ?thesis
      using argmin_less [of "fitnesses_of h pop"] ne by (simp add: fitnesses_of_def)
  qed
  have "length ?rest = length pop - 1"
    using low_in by (simp add: length_remove1)
  with two have "?rest \<noteq> []" by auto
  then obtain y where y: "y \<in> set ?rest" by (cases ?rest) auto
  then have y_pop: "y \<in> set pop" by (meson notin_set_remove1)
  have "\<exists>x \<in> set ?rest. fitness (h ! r) \<le> fitness (h ! x)"
  proof (cases "r = ?lowest")
    case True
    with least [OF y_pop] y show ?thesis by auto
  next
    case False
    with r have "r \<in> set ?rest" by simp
    then show ?thesis by auto
  qed
  then obtain x where x: "x \<in> set ?rest" and le: "fitness (h ! r) \<le> fitness (h ! x)"
    by auto
  from x have "x \<in> set pop" by (meson notin_set_remove1)
  with valid have "x < length h" by simp
  with x le show ?thesis
    by (auto simp: replace_lowest_def deepcopy_def Let_def nth_append)
qed

lemma replace_lowest_valid:
  assumes "\<forall>r \<in> set pop. r < length h"
  shows "\<forall>r \<in> set (fst (replace_lowest h pop e)). r < length (snd (replace_lowest h pop e))"
proof -
  have "x \<in> set (remove1 y pop) \<Longrightarrow> x < length h" for x y
    using assms by (meson notin_set_remove1)
  then show ?thesis
    by (auto simp: replace_lowest_def deepcopy_def Let_def less_Suc_eq)
qed

lemma reinsert_elites_keeps_max:
  assumes "\<forall>r \<in> set pop. r < length h"
    and "es = [] \<or> 2 \<le> length pop"
    and "r \<in> set pop"
  shows "\<exists>r' \<in> set (fst (reinsert_elites h pop es)).
           fitness (h ! r) \<le> fitness (snd (reinsert_elites h pop es) ! r')"
  using assms
proof (induction es arbitrary: h pop r)
  case Nil
  then show ?case by auto
next
  case (Cons e es)
  obtain pop' h' where step: "replace_lowest h pop e = (pop', h')"
    by (cases "replace_lowest h pop e")
  from Cons.prems have two: "2 \<le> length pop" by simp
  then have ne: "pop \<noteq> []" by auto
  have valid': "\<forall>r \<in> set pop'. r < length h'"
    using replace_lowest_valid [OF Cons.prems(1), of e] step by simp
  have len': "2 \<le> length pop'"
    using length_replace_lowest [OF ne, of h e] step two by simp
  obtain r1 where r1: "r1 \<in> set pop'" and le1: "fitness (h ! r) \<le> fitness (h' ! r1)"
    using replace_lowest_keeps_max [OF Cons.prems(1) two Cons.prems(3), of e] step by auto
  from Cons.IH [OF valid' _ r1] len'
  obtain r2 where "r2 \<in> set (fst (reinsert_elites h' pop' es))"
    and "fitness (h' ! r1) \<le> fitness (snd (reinsert_elites h' pop' es) ! r2)"
    by auto
  with le1 step show ?case
    by (auto intro: order_trans)
qed

lemma reinsert_elites_valid:
  assumes "\<forall>r \<in> set pop. r < length h"
  shows "\<forall>r \<in> set (fst (reinsert_elites h pop es)). r < length (snd (reinsert_elites h pop es))"
  using assms
proof (induction es arbitrary: h pop)
  case Nil
  then show ?case by simp
next
  case (Cons e es)
  obtain pop' h' where step: "replace_lowest h pop e = (pop', h')"
    by (cases "replace_lowest h pop e")
  have "\<forall>r \<in> set pop'. r < length h'"
    using replace_lowest_valid [OF Cons.prems, of e] step by simp
  from Cons.IH [OF this] step show ?case by simp
qed


lemma perform_generation_result:
  assumes "perform_generation w c st = Inr st'"
  shows "heap st' =
           snd (population_after_elites w c st)
             @ [snd (population_after_elites w c st) ! generation_best w c st,
                (snd (population_after_elites w c st)
                   @ [snd (population_after_elites w c st) ! generation_best w c st])
                  ! generation_best w c st]"
    and "best_of_gens st' = best_of_gens st @ [Suc (length (snd (population_after_elites w c st)))]"
    and "population st' =
           remove1 (fst (population_after_elites w c st)
                      ! argmin (fitnesses_of (snd (population_after_elites w c st))
                                  (fst (population_after_elites w c st))))
             (fst (population_after_elites w c st))
           @ [length (snd (population_after_elites w c st))]"
  using assms
  by (auto simp add: perform_generation_def Let_def replace_lowest_def deepcopy_def
      split: if_splits option.splits prod.splits)

lemma offspring_population_refs:
  "fst (offspring_population_of w c st) =
     [length (snd (elites_of c st)) ..< length (snd (elites_of c st)) + length (parents_of w c st)]"
  "length (snd (offspring_population_of w c st)) =
     length (snd (elites_of c st)) + length (parents_of w c st)"
  by (simp_all add: offspring_population_of_def alloc_list_def offspring_of_def Let_def)

lemma length_heap_after_elites [simp]:
  "length (heap_after_elites w c st) = length (snd (offspring_population_of w c st))"
  by (simp add: heap_after_elites_def)

lemma length_heap_after_offspring [simp]:
  "length (heap_after_offspring w c st) = length (snd (offspring_population_of w c st))"
  by (simp add: heap_after_offspring_def)

lemma offspring_valid:
  "\<forall>r \<in> set (fst (offspring_population_of w c st)). r < length (heap_after_offspring w c st)"
  by (simp add: offspring_population_refs)

lemma offspring_fitness_stored:
  assumes "pop_size c \<le> length (fst (offspring_population_of w c st))" and "j < pop_size c"
  shows "fitness (heap_after_offspring w c st ! (fst (offspring_population_of w c st) ! j))
           = ev_fitness (offspring_fitnesses w c st ! j)"
  unfolding heap_after_offspring_def
proof (rule store_scores_fitness [OF _ assms(1) _ assms(2)])
  show "distinct (fst (offspring_population_of w c st))"
    by (simp add: offspring_population_refs)
  show "\<forall>r\<in>set (fst (offspring_population_of w c st)). r < length (heap_after_elites w c st)"
    by (simp add: offspring_population_refs)
qed

lemma elite_count_le_pop_size:
  assumes frac: "elitism c \<le> 1" and size: "pop_size c < 2 ^ 53"
  shows "elite_count c \<le> int (pop_size c)"
proof -
  let ?p = "real (pop_size c)"
  have "double_round (elitism c) \<le> real 1"
    by (rule double_round_le_nat) (use frac in simp_all)
  then have one: "double_round (elitism c) \<le> 1" by simp
  have p0: "0 \<le> double_round ?p"
    by (simp add: double_round_nonneg)
  have p1: "double_round ?p \<le> ?p"
    by (rule double_round_le_nat [OF order_refl size])
  have "double_round (elitism c) * double_round ?p \<le> 1 * double_round ?p"
    by (rule mult_right_mono [OF one p0])
  with p1 have "double_round (elitism c) * double_round ?p \<le> ?p" by simp
  then have "double_round (double_round (elitism c) * double_round ?p) \<le> ?p"
    by (rule double_round_le_nat [OF _ size])
  then show ?thesis
    by (auto simp: elite_count_def py_int_def floor_le_iff ceiling_le_iff)
qed

lemma generation_best_greatest:
  assumes "fst (population_after_elites w c st) \<noteq> []"
    and "r \<in> set (fst (population_after_elites w c st))"
  shows "fitness (snd (population_after_elites w c st) ! r)
           \<le> fitness (snd (population_after_elites w c st) ! generation_best w c st)"
    and "generation_best w c st \<in> set (fst (population_after_elites w c st))"
proof -
  let ?pop = "fst (population_after_elites w c st)"
  let ?h = "snd (population_after_elites w c st)"
  have lt: "argmax (fitnesses_of ?h ?pop) < length ?pop"
    using argmax_less [of "fitnesses_of ?h ?pop"] assms(1) by simp
  then show "generation_best w c st \<in> set ?pop"
    by (simp add: generation_best_def)
  have "fitness (?h ! r) \<in> set (fitnesses_of ?h ?pop)"
    using assms(2) by (auto simp: fitnesses_of_def)
  from argmax_greatest [OF this] lt
  show "fitness (?h ! r) \<le> fitness (?h ! generation_best w c st)"
    by (simp add: generation_best_def fitnesses_of_def)
qed

subsection \<open>The small run, evaluated\<close>

lemma upt_0_4: "[0..<4] = [0, 1, 2, 3::nat]" by code_simp
lemma upt_0_2: "[0..<2] = [0, 1::nat]" by code_simp
lemma upt_1_2: "[Suc 0..<2] = [Suc 0]" by (simp add: upt_rec)

lemma ex_config_simps:
  "pop_size ex_config = 4" "elitism ex_config = 1/2" "max_evals ex_config = None"
  "max_gens ex_config = Some 5" "max_time ex_config = None" "verbose ex_config = False"
  by (simp_all add: ex_config_def)

lemma ex_world_simps:
  "generate_random_multitree ex_world = ex_object"
  "sel_fun ex_world g pop n = take n pop"
  "generate_offspring ex_world g i t parents = ex_object (100 + i)"
  "fitness_function ex_world k hard i x = (ex_fit k (tree x), [ex_terminal (tree x) k], 1, 1)"
  "clock ex_world = real"
  "get_subtrees_consts ex_world t' = []"
  "get_output_pt ex_world t' s = [real t', real s]"
  "sample ex_world k mem n = take n mem"
  "new_optimizer ex_world cs = ()"
  "optimizer_step ex_world optimizer t' predicted expected = (optimizer, Suc t')"
  by (simp_all add: ex_world_def)

lemma ex_initial_population:
  "initial_population ex_world ex_config (new_evolution []) = ([0, 1, 2, 3], [ex_object 0, ex_object 1, ex_object 2, ex_object 3])"
  by (simp add: initial_population_def alloc_list_def ex_world_simps ex_config_simps new_evolution_def upt_0_4)

lemma ex_initial_fitnesses:
  "initial_fitnesses ex_world ex_config (new_evolution []) =
     [(10, [ex_terminal 0 0], 1, 1), (9, [ex_terminal 1 0], 1, 1), (1, [ex_terminal 2 0], 1, 1), (0, [ex_terminal 3 0], 1, 1)]"
  by (simp add: initial_fitnesses_def ex_initial_population evaluate_def upt_0_4 ex_world_simps ex_object_def ex_fit_def)

lemma ex_heap_after_init:
  "heap_after_init ex_world ex_config (new_evolution []) = [ex_ind 0 10 0, ex_ind 1 9 0, ex_ind 2 1 0, ex_ind 3 0 0]"
  by (simp add: heap_after_init_def ex_initial_population ex_initial_fitnesses store_fitness_def ex_config_simps upt_0_4 ex_object_def ex_ind_def ev_fitness_def)

lemma ex_initial_best: "initial_best ex_world ex_config (new_evolution []) = 0"
  by (simp add: initial_best_def ex_heap_after_init ex_initial_population fitnesses_of_def ex_ind_def)

lemma ex_initialize:
  "initialize_population ex_world ex_config (new_evolution []) = Inr ex_st1"
proof -
  have "refine_loop ex_world [0 ..< 500] [] mem optimizer h best = Inr h" for mem optimizer h best
    by (rule refine_loop_skip) simp
  then show ?thesis
    unfolding initialize_population_def ex_initial_fitnesses ex_initial_best ex_heap_after_init
      ex_initial_population initial_memory_def Let_def
    by (simp add: ev_memory_def deepcopy_def ex_st1_def ex_heap1_def new_evolution_def
      ex_config_simps ex_world_simps)
qed


lemma ex_st1_simps:
  "heap ex_st1 = ex_heap1" "population ex_st1 = [0, 1, 2, 3]" "num_gens ex_st1 = 0"
  "num_evals ex_st1 = 4" "best_of_gens ex_st1 = [4]"
  "memory ex_st1 = Some [ex_terminal 0 0, ex_terminal 1 0, ex_terminal 2 0, ex_terminal 3 0]"
  by (simp_all add: ex_st1_def)

lemma ex_st2_simps:
  "heap ex_st2 = ex_heap4 @ [ex_ind 1 9 1, ex_ind 1 9 1, ex_ind 1 9 1]"
  "population ex_st2 = [9, 10, 11, 12]" "num_gens ex_st2 = 1"
  "num_evals ex_st2 = 8" "best_of_gens ex_st2 = [4, 13]"
  "memory ex_st2 = Some [ex_terminal 100 1, ex_terminal 101 1, ex_terminal 102 1,
                         ex_terminal 103 1, ex_terminal 0 0, ex_terminal 1 0,
                         ex_terminal 2 0, ex_terminal 3 0]"
  by (simp_all add: ex_st2_def)

lemma ex_elite_count: "elite_count ex_config = 2"
  by (simp add: elite_count_def ex_config_simps py_int_def double_arith Let_def)

lemma ex_elite_count_error: "elite_count_error ex_config = None"
  by (simp add: elite_count_error_def ex_config_simps double_arith Let_def)

lemma ex_elites:
  "elites_of ex_config ex_st1 = ([5, 6], ex_heap1 @ [ex_ind 0 10 0, ex_ind 1 9 0])"
  by (simp add: elites_of_def ex_elite_count slice_to_def sorted_by_fitness_desc_def ex_st1_simps
      ex_heap1_def deepcopy_def ex_ind_def)

lemma ex_offspring: 
  "offspring_of ex_world ex_config ex_st1 = [ex_object 100, ex_object 101, ex_object 102, ex_object 103]"
  by (simp add: offspring_of_def parents_of_def ex_world_simps ex_config_simps ex_st1_simps upt_0_4)

lemma ex_offspring_population:
  "offspring_population_of ex_world ex_config ex_st1 =
     ([7, 8, 9, 10], ex_heap1 @ [ex_ind 0 10 0, ex_ind 1 9 0,
                       ex_object 100, ex_object 101, ex_object 102, ex_object 103])"
  by (simp add: offspring_population_of_def ex_elites ex_offspring alloc_list_def ex_heap1_def)

lemma ex_harder: "harder (heap ex_st1) (population ex_st1) = False"
  by (simp add: harder_def ex_st1_simps fitnesses_of_def ex_heap1_def ex_ind_def)

lemma ex_elite_fitnesses:
  "elite_fitnesses ex_world ex_config ex_st1 = [(4, [ex_terminal 0 1], 1, 1), (9, [ex_terminal 1 1], 1, 1)]"
  by (simp add: elite_fitnesses_def ex_offspring_population ex_elites ex_harder evaluate_def upt_0_2
      ex_world_simps ex_st1_simps ex_heap1_def ex_ind_def ex_fit_def)

lemma ex_heap_after_elites:
  "heap_after_elites ex_world ex_config ex_st1 =
     ex_heap1 @ [ex_ind 0 4 1, ex_ind 1 9 1, ex_object 100, ex_object 101, ex_object 102, ex_object 103]"
  by (simp add: heap_after_elites_def ex_offspring_population ex_elites ex_elite_fitnesses ex_elite_count
      store_scores_def set_scores_def upt_0_2 ex_heap1_def ex_ind_def ev_fitness_def ev_games_def ev_wins_def)

lemma ex_offspring_fitnesses:
  "offspring_fitnesses ex_world ex_config ex_st1 =
     [(5, [ex_terminal 100 1], 1, 1), (6, [ex_terminal 101 1], 1, 1),
      (7, [ex_terminal 102 1], 1, 1), (8, [ex_terminal 103 1], 1, 1)]"
  by (simp add: offspring_fitnesses_def ex_offspring_population ex_heap_after_elites ex_harder evaluate_def
      upt_0_4 ex_world_simps ex_st1_simps ex_heap1_def ex_object_def ex_fit_def)

lemma ex_heap_after_offspring:
  "heap_after_offspring ex_world ex_config ex_st1 = ex_heap4"
  by (simp add: heap_after_offspring_def ex_offspring_population ex_heap_after_elites ex_offspring_fitnesses
      ex_config_simps store_scores_def set_scores_def upt_0_4 ex_heap1_def ex_heap4_def ex_ind_def ex_object_def
      ev_fitness_def ev_games_def ev_wins_def)

lemma ex_population_after_elites:
  "population_after_elites ex_world ex_config ex_st1 = ([8, 9, 10, 11], ex_heap4 @ [ex_ind 1 9 1])"
  by (simp add: population_after_elites_def ex_heap_after_offspring ex_offspring_population ex_elites
      ex_elite_count upt_1_2 replace_lowest_def fitnesses_of_def deepcopy_def ex_heap4_def ex_heap1_def ex_ind_def)

lemma ex_generation_best: "generation_best ex_world ex_config ex_st1 = 11"
  by (simp add: generation_best_def ex_population_after_elites fitnesses_of_def
      ex_heap4_def ex_heap1_def ex_ind_def)

lemma ex_generation: "perform_generation ex_world ex_config ex_st1 = Inr ex_st2"
  unfolding perform_generation_def ex_elite_fitnesses ex_offspring_fitnesses ex_elites
    ex_offspring_population ex_population_after_elites ex_generation_best ex_elite_count
    ex_elite_count_error Let_def
  by (simp add: ex_st1_def ex_st2_def ex_config_simps replace_lowest_def fitnesses_of_def deepcopy_def
      ex_heap4_def ex_heap1_def ex_ind_def ev_memory_def)


subsection \<open>The archived champion\<close>

text \<open>
  Claim C1 says that the fitness of the archived champion never decreases from one
  generation to the next. In the small run it does: the champion of the initial
  population has fitness 10; in the first generation the elites are evaluated again,
  under new seeds, and the former champion scores 4, the second elite 9 and the
  offspring 5 to 8. Whichever elite snapshots are reinserted, the best fitness in the
  new population is 9, and that is what the archive records.
\<close>

theorem champion_fitness_decreases:
  "initialize_population ex_world ex_config (new_evolution []) = Inr ex_st1
   \<and> perform_generation ex_world ex_config ex_st1 = Inr ex_st2
   \<and> fitness (heap ex_st2 ! (best_of_gens ex_st2 ! 1))
       < fitness (heap ex_st2 ! (best_of_gens ex_st2 ! 0))"
  by (simp add: ex_initialize ex_generation ex_st2_simps ex_heap4_def ex_heap1_def ex_ind_def)

text \<open>
  Claim C1, amended. What the replacement step keeps is the best fitness of the
  generation's own offspring: for a fraction \<open>elitism \<le> 1\<close>, the champion archived at
  the end of a generation is at least as fit as every evaluated offspring of that
  generation.
\<close>

theorem champion_dominates_offspring:
  assumes gen: "perform_generation w c st = Inr st'"
    and frac: "elitism c \<le> 1"
    and j: "j < pop_size c"
  shows "ev_fitness (offspring_fitnesses w c st ! j)
           \<le> fitness (heap st' ! last (best_of_gens st'))"
proof -
  let ?offs = "fst (offspring_population_of w c st)"
  let ?h4 = "heap_after_offspring w c st"
  let ?es = "map (\<lambda>i. fst (elites_of c st) ! i) [1 ..< nat (elite_count c)]"
  let ?pop1 = "fst (population_after_elites w c st)"
  let ?h5 = "snd (population_after_elites w c st)"
  let ?best = "generation_best w c st"
  have size: "pop_size c \<le> length ?offs"
    by (rule perform_generation_Inr(6) [OF gen])
  have pae: "population_after_elites w c st = reinsert_elites ?h4 ?offs ?es"
    by (simp add: population_after_elites_def)
  have valid: "\<forall>r \<in> set ?offs. r < length ?h4"
    by (rule offspring_valid)
  have loop: "?es = [] \<or> 2 \<le> length ?offs"
  proof (cases "pop_size c \<le> 1")
    case True
    then have "pop_size c < 2 ^ 53" by simp
    from elite_count_le_pop_size [OF frac this] True show ?thesis by simp
  next
    case False
    with size show ?thesis by simp
  qed
  have "?offs ! j \<in> set ?offs"
    using j size by simp
  from reinsert_elites_keeps_max [OF valid loop this]
  obtain r where r: "r \<in> set ?pop1" and le: "fitness (?h4 ! (?offs ! j)) \<le> fitness (?h5 ! r)"
    unfolding pae by auto
  from r have ne: "?pop1 \<noteq> []" by auto
  have best: "fitness (?h5 ! r) \<le> fitness (?h5 ! ?best)" and best_in: "?best \<in> set ?pop1"
    using generation_best_greatest [OF ne r] by auto
  have "\<forall>r \<in> set ?pop1. r < length ?h5"
    unfolding pae by (rule reinsert_elites_valid [OF valid])
  with best_in have best_valid: "?best < length ?h5" by simp
  have "heap st' ! last (best_of_gens st') = ?h5 ! ?best"
    using best_valid
    by (simp add: perform_generation_result(1,2) [OF gen] nth_append)
  with le best offspring_fitness_stored [OF size j] show ?thesis
    by simp
qed


theorem champion_dominates_offspring_witness:
  "ev_fitness (offspring_fitnesses ex_world ex_config ex_st1 ! 3)
     \<le> fitness (heap ex_st2 ! last (best_of_gens ex_st2))"
  using champion_dominates_offspring [OF ex_generation, of 3]
  by (simp add: ex_config_simps)

subsection \<open>Cost accounting and replay memory\<close>

text \<open>
  Claim C4 (the evaluation counter grows by the size of every evaluated batch). In the
  small run the first generation evaluates two elites and four offspring, and
  \<open>num_evals\<close> grows by four: line 322 adds \<open>pop_size\<close> and nothing counts the elite
  batch of line 275.
\<close>

theorem num_evals_misses_elite_batch:
  "initialize_population ex_world ex_config (new_evolution []) = Inr ex_st1
   \<and> perform_generation ex_world ex_config ex_st1 = Inr ex_st2
   \<and> length (elite_fitnesses ex_world ex_config ex_st1) = 2
   \<and> length (offspring_fitnesses ex_world ex_config ex_st1) = 4
   \<and> num_evals ex_st2 = num_evals ex_st1 + 4"
  by (simp add: ex_initialize ex_generation ex_elite_fitnesses ex_offspring_fitnesses
      ex_st1_simps ex_st2_simps)

text \<open>
  Claim C3 (the replay contributions of the elite batch are concatenated onto the replay
  memory). In the small run the elite evaluations return the transitions
  \<open>ex_terminal 0 1\<close> and \<open>ex_terminal 1 1\<close>; the memory after the generation holds the
  offspring's contributions and the old memory, and neither of the two.
\<close>

theorem elite_replay_contributions_dropped:
  "perform_generation ex_world ex_config ex_st1 = Inr ex_st2
   \<and> concat (map ev_memory (elite_fitnesses ex_world ex_config ex_st1))
       = [ex_terminal 0 1, ex_terminal 1 1]
   \<and> memory ex_st2
       = Some (concat (map ev_memory (offspring_fitnesses ex_world ex_config ex_st1))
                 @ the (memory ex_st1))
   \<and> ex_terminal 0 1 \<notin> set (the (memory ex_st2))
   \<and> ex_terminal 1 1 \<notin> set (the (memory ex_st2))"
  by (simp add: ex_generation ex_elite_fitnesses ex_offspring_fitnesses ev_memory_def
      ex_st1_simps ex_st2_simps ex_terminal_def)

subsection \<open>When a generation returns\<close>

lemma length_deepcopy_list [simp]: "length (fst (deepcopy_list memo h rs)) = length rs"
  by (induction rs arbitrary: memo h) (simp_all add: deepcopy_def split_beta split: option.splits)

lemma length_slice_to:
  "length (slice_to k xs) = (if 0 \<le> k then min (nat k) (length xs) else length xs - nat (- k))"
  by (auto simp: slice_to_def)

lemma length_elites:
  "length (fst (elites_of c st)) =
     (if 0 \<le> elite_count c then min (nat (elite_count c)) (length (population st))
      else length (population st) - nat (- elite_count c))"
  by (simp add: elites_of_def length_slice_to sorted_by_fitness_desc_def)

lemma elite_fitnesses_eq_Nil: "elite_fitnesses w c st = [] \<longleftrightarrow> fst (elites_of c st) = []"
  by (simp add: elite_fitnesses_def)

lemma offspring_fitnesses_eq_Nil: "offspring_fitnesses w c st = [] \<longleftrightarrow> parents_of w c st = []"
  by (simp add: offspring_fitnesses_def flip: length_0_conv add: length_offspring_population)

lemma perform_generation_no_elites:
  assumes "elite_count c = 0" and "elite_count_error c = None"
  shows "perform_generation w c st = Inl (if population st = [] then ValueError else IndexError)"
proof -
  have "length (fst (elites_of c st)) = 0"
    using assms(1) by (simp add: length_elites)
  then have "elite_fitnesses w c st = []"
    by (simp add: elite_fitnesses_eq_Nil)
  then show ?thesis
    using assms(2) by (simp add: perform_generation_def Let_def)
qed

lemma perform_generation_memory_None:
  assumes "memory st = None" and "population st \<noteq> []" and "0 < elite_count c"
    and "nat (elite_count c) \<le> length (population st)" and "parents_of w c st \<noteq> []"
    and "elite_count_error c = None"
  shows "perform_generation w c st = Inl TypeError"
proof -
  have len: "length (fst (elites_of c st)) = nat (elite_count c)"
    using assms(3,4) by (simp add: length_elites)
  with assms(3) have "fst (elites_of c st) \<noteq> []" by auto
  then have "elite_fitnesses w c st \<noteq> []"
    by (simp add: elite_fitnesses_eq_Nil)
  moreover have "offspring_fitnesses w c st \<noteq> []"
    using assms(5) by (simp add: offspring_fitnesses_eq_Nil)
  ultimately show ?thesis
    using assms(1,2,6) len by (simp add: perform_generation_def Let_def)
qed

lemma perform_generation_succeeds:
  assumes "population st \<noteq> []" and "0 < elite_count c"
    and "nat (elite_count c) \<le> length (population st)" and "memory st \<noteq> None"
    and "pop_size c \<le> length (parents_of w c st)" and "parents_of w c st \<noteq> []"
    and "elite_count_error c = None"
  shows "\<exists>st'. perform_generation w c st = Inr st'"
proof -
  have len: "length (fst (elites_of c st)) = nat (elite_count c)"
    using assms(2,3) by (simp add: length_elites)
  with assms(2) have "fst (elites_of c st) \<noteq> []" by auto
  then have "elite_fitnesses w c st \<noteq> []"
    by (simp add: elite_fitnesses_eq_Nil)
  moreover have "offspring_fitnesses w c st \<noteq> []"
    using assms(6) by (simp add: offspring_fitnesses_eq_Nil)
  ultimately show ?thesis
    using assms(1,4,5,7) len
    by (auto simp add: perform_generation_def Let_def length_offspring_population
        split: option.splits prod.splits)
qed


lemma initialize_population_Inr:
  assumes "initialize_population w c st = Inr st'"
  shows "population st' = fst (initial_population w c st)"
    and "num_gens st' = num_gens st"
    and "num_evals st' = num_evals st + pop_size c"
    and "length (best_of_gens st') = Suc (length (best_of_gens st))"
    and "memory st' = Some (initial_memory w c st)"
  using assms
  by (auto simp: initialize_population_def Let_def deepcopy_def split: if_splits sum.splits)

lemma generation_population_length:
  assumes "perform_generation w c st = Inr st'"
  shows "length (fst (population_after_elites w c st)) = length (parents_of w c st)"
    and "length (population st') = length (parents_of w c st)"
proof -
  let ?offs = "fst (offspring_population_of w c st)"
  let ?pop1 = "fst (population_after_elites w c st)"
  have "offspring_fitnesses w c st \<noteq> []"
    by (rule perform_generation_Inr(4) [OF assms])
  then have ne: "?offs \<noteq> []"
    by (simp add: offspring_fitnesses_def)
  show pop1: "length ?pop1 = length (parents_of w c st)"
    using length_reinsert_elites [OF ne]
    by (simp add: population_after_elites_def length_offspring_population)
  then have "length ?pop1 = length ?offs"
    by (simp add: length_offspring_population)
  with ne have "?pop1 \<noteq> []"
    by auto
  from length_replace_lowest [OF this] pop1
  show "length (population st') = length (parents_of w c st)"
    by (simp add: perform_generation_Inr(7) [OF assms])
qed

text \<open>
  Claim C5. The initialisation leaves \<open>pop_size\<close> individuals in the population. In a
  generation whose selection returns \<open>pop_size\<close> parents (one offspring is built per
  parent), the offspring population, the population after the elite loop and the
  population after the reinsertion of the best individual all hold \<open>pop_size\<close>
  individuals: the population has that size at the end of every generation, and so at
  the start of the next.
\<close>

theorem population_size_constant:
  assumes "length (parents_of w c st) = pop_size c"
  shows "(initialize_population w c st0 = Inr st1 \<longrightarrow> length (population st1) = pop_size c)
       \<and> (perform_generation w c st = Inr st2 \<longrightarrow>
            length (fst (offspring_population_of w c st)) = pop_size c
          \<and> length (fst (population_after_elites w c st)) = pop_size c
          \<and> length (population st2) = pop_size c)"
  using assms
  by (auto simp: initialize_population_Inr(1) initial_population_refs length_offspring_population
      generation_population_length)

theorem population_size_constant_witness:
  "length (population ex_st1) = pop_size ex_config
   \<and> length (fst (offspring_population_of ex_world ex_config ex_st1)) = pop_size ex_config
   \<and> length (fst (population_after_elites ex_world ex_config ex_st1)) = pop_size ex_config
   \<and> length (population ex_st2) = pop_size ex_config"
proof -
  have "length (parents_of ex_world ex_config ex_st1) = pop_size ex_config"
    by (simp add: parents_of_def ex_world_simps ex_config_simps ex_st1_simps)
  from population_size_constant [OF this, of "new_evolution []" ex_st1 ex_st2]
  show ?thesis
    using ex_initialize ex_generation by simp
qed

subsection \<open>Termination\<close>

text \<open>
  With only \<open>max_gens = G\<close> configured, \<open>G\<close> positive, the loop started in a state of
  at most \<open>G\<close> generations returns in a state of exactly \<open>G\<close> generations, provided no
  generation raises: the selection returns \<open>pop_size\<close> parents, line 256 yields an
  elite count and it lies between 1 and \<open>pop_size\<close>, the replay memory is set, and the report is either off or
  has two fitness values to compute a deviation from. The small run is such a run
  (\<open>ex_run_halts\<close>).
\<close>

lemma must_terminate_max_gens:
  assumes "max_gens c = Some G" and "max_evals c = None" and "max_time c = None"
  shows "fst (must_terminate w c st) \<longleftrightarrow> G \<noteq> 0 \<and> G \<le> int (num_gens st)"
    and "snd (must_terminate w c st) = st\<lparr> elapsed_time := clock w (Suc (num_gens st)) - start_time st \<rparr>"
  using assms by (simp_all add: must_terminate_def Let_def)

lemma generational_loop_halts:
  assumes bounds: "max_gens c = Some G" "max_evals c = None" "max_time c = None"
    and positive: "0 < G"
    and quiet: "verbose c \<longrightarrow> 2 \<le> pop_size c"
    and contract: "\<And>g pop. length pop = pop_size c \<Longrightarrow>
                             length (sel_fun w g pop (pop_size c)) = pop_size c"
    and elites: "0 < elite_count c" "elite_count c \<le> int (pop_size c)"
                "elite_count_error c = None"
    and inv: "length (population st) = pop_size c" "memory st \<noteq> None" "int (num_gens st) \<le> G"
  shows "\<exists>st'. generational_loop w c st = Some (Inr st') \<and> int (num_gens st') = G"
  using inv
proof (induction "nat (G - int (num_gens st))" arbitrary: st)
  case 0
  then have "G = int (num_gens st)" by simp
  with positive bounds show ?case
    by (subst generational_loop.simps) (simp add: must_terminate_max_gens)
next
  case (Suc n)
  let ?st1 = "snd (must_terminate w c st)"
  from Suc.hyps(2) have less: "int (num_gens st) < G" by simp
  then have go: "\<not> fst (must_terminate w c st)"
    using bounds by (simp add: must_terminate_max_gens)
  have st1: "population ?st1 = population st" "memory ?st1 = memory st" "num_gens ?st1 = num_gens st"
    using bounds by (simp_all add: must_terminate_max_gens)
  have size: "0 < pop_size c"
    using elites by simp
  have parents: "length (parents_of w c ?st1) = pop_size c"
    unfolding parents_of_def by (rule contract) (simp add: st1 Suc.prems(1))
  have "\<exists>st2. perform_generation w c ?st1 = Inr st2"
  proof (rule perform_generation_succeeds)
    show "population ?st1 \<noteq> []" using Suc.prems(1) size st1 by auto
    show "0 < elite_count c" by (rule elites)
    show "nat (elite_count c) \<le> length (population ?st1)"
      using elites Suc.prems(1) st1 by simp
    show "memory ?st1 \<noteq> None" using Suc.prems(2) st1 by simp
    show "pop_size c \<le> length (parents_of w c ?st1)" using parents by simp
    show "parents_of w c ?st1 \<noteq> []" using parents size by auto
    show "elite_count_error c = None" by (rule elites)
  qed
  then obtain st2 where gen: "perform_generation w c ?st1 = Inr st2" by auto
  have len2: "length (population st2) = pop_size c"
    using generation_population_length(2) [OF gen] parents by simp
  have mem2: "memory st2 \<noteq> None"
    using perform_generation_Inr(11) [OF gen] by simp
  have gens2: "num_gens st2 = Suc (num_gens st)"
    using perform_generation_Inr(8) [OF gen] st1 by simp
  have log: "log_info c st2 = Inr st2"
    using quiet len2 by (auto simp: log_info_def)
  have "n = nat (G - int (num_gens st2))"
    using Suc.hyps(2) gens2 by simp
  from Suc.hyps(1) [OF this len2 mem2] gens2 less
  obtain st' where "generational_loop w c st2 = Some (Inr st')" and "int (num_gens st') = G"
    by auto
  then show ?case
    using go gen log by (subst generational_loop.simps) simp
qed

lemma evolve_halts_at_max_gens:
  assumes bounds: "max_gens c = Some G" "max_evals c = None" "max_time c = None"
    and positive: "0 < G"
    and quiet: "verbose c \<longrightarrow> 2 \<le> pop_size c"
    and contract: "\<And>g pop. length pop = pop_size c \<Longrightarrow>
                             length (sel_fun w g pop (pop_size c)) = pop_size c"
    and elites: "0 < elite_count c" "elite_count c \<le> int (pop_size c)"
                "elite_count_error c = None"
    and init: "initialize_population w c ((new_evolution [])\<lparr> start_time := clock w 0 \<rparr>) = Inr st1"
  shows "\<exists>st'. evolve w c (new_evolution []) = Some (Inr st') \<and> int (num_gens st') = G"
proof -
  have "\<exists>st'. generational_loop w c st1 = Some (Inr st') \<and> int (num_gens st') = G"
  proof (rule generational_loop_halts [OF bounds positive quiet _ elites])
    show "length (sel_fun w g pop (pop_size c)) = pop_size c" if "length pop = pop_size c" for g pop
      using that by (rule contract)
    show "length (population st1) = pop_size c"
      by (simp add: initialize_population_Inr(1) [OF init] initial_population_refs)
    show "memory st1 \<noteq> None"
      by (simp add: initialize_population_Inr(5) [OF init])
    show "int (num_gens st1) \<le> G"
      using positive by (simp add: initialize_population_Inr(2) [OF init] new_evolution_def)
  qed
  then show ?thesis
    using init by (simp add: evolve_def Let_def new_evolution_def)
qed

lemma ex_run_halts:
  "\<exists>st'. evolve ex_world ex_config (new_evolution []) = Some (Inr st') \<and> int (num_gens st') = 5"
proof (rule evolve_halts_at_max_gens)
  show "max_gens ex_config = Some 5" "max_evals ex_config = None" "max_time ex_config = None"
    by (simp_all add: ex_config_simps)
  show "(0::int) < 5" by simp
  show "verbose ex_config \<longrightarrow> 2 \<le> pop_size ex_config"
    by (simp add: ex_config_simps)
  show "length (sel_fun ex_world g pop (pop_size ex_config)) = pop_size ex_config"
    if "length pop = pop_size ex_config" for g and pop :: "nat individual list"
    using that by (simp add: ex_world_simps)
  show "0 < elite_count ex_config" "elite_count ex_config \<le> int (pop_size ex_config)"
    "elite_count_error ex_config = None"
    by (simp_all add: ex_elite_count ex_elite_count_error ex_config_simps)
  have "(new_evolution [] :: (nat, nat) evolution)\<lparr> start_time := clock ex_world 0 \<rparr>
          = new_evolution []"
    by (simp add: new_evolution_def ex_world_simps)
  then show "initialize_population ex_world ex_config
               ((new_evolution [])\<lparr> start_time := clock ex_world 0 \<rparr>) = Inr ex_st1"
    by (simp add: ex_initialize)
qed

lemma initialize_population_pop_size:
  assumes "pop_size c = pop_size c'"
  shows "initialize_population w c st = initialize_population w c' st"
proof -
  have pop: "initial_population w c st = initial_population w c' st"
    using assms by (simp add: initial_population_def)
  have fit: "initial_fitnesses w c st = initial_fitnesses w c' st"
    by (simp add: initial_fitnesses_def pop)
  have mem: "initial_memory w c st = initial_memory w c' st"
    by (simp add: initial_memory_def fit)
  have hp: "heap_after_init w c st = heap_after_init w c' st"
    using assms by (simp add: heap_after_init_def pop fit)
  have best: "initial_best w c st = initial_best w c' st"
    by (simp add: initial_best_def pop hp)
  show ?thesis
    unfolding initialize_population_def pop fit mem hp best assms ..
qed

lemma new_evolution_start: "(new_evolution [])\<lparr> start_time := 0 \<rparr> = new_evolution []"
  by (simp add: new_evolution_def)

text \<open>
  Claim C9 (with only a positive \<open>max_gens\<close> configured, the run halts with that many
  generations). With the default \<open>elitism = 0.1\<close> and \<open>pop_size = 4\<close> the elite count is
  0 (the double product is 0.4 and a little more), the elite batch is empty, line 279 indexes the empty transposed
  result list, and the run raises in its first generation. The lemma
  \<open>perform_generation_no_elites\<close> above gives this for every configuration whose elite
  count is zero, the lemma \<open>evolve_halts_at_max_gens\<close> gives the claim for the others.
\<close>

theorem run_without_elites_raises:
  "elite_count (ex_config\<lparr> elitism := 1 / 10 \<rparr>) = 0
   \<and> evolve ex_world (ex_config\<lparr> elitism := 1 / 10 \<rparr>) (new_evolution []) = Some (Inl IndexError)"
proof -
  let ?c = "ex_config\<lparr> elitism := 1 / 10 \<rparr>"
  have k: "elite_count ?c = 0"
    by (simp add: elite_count_def py_int_def ex_config_simps double_arith Let_def)
  have count: "elite_count_error ?c = None"
    by (simp add: elite_count_error_def ex_config_simps double_arith Let_def)
  have init: "initialize_population ex_world ?c (new_evolution []) = Inr ex_st1"
    using initialize_population_pop_size [of ?c ex_config ex_world "new_evolution []"] ex_initialize
    by simp
  have stop: "\<not> fst (must_terminate ex_world ?c ex_st1)"
    by (simp add: must_terminate_def Let_def ex_config_simps ex_st1_simps)
  have pop: "population (snd (must_terminate ex_world ?c ex_st1)) \<noteq> []"
    by (simp add: must_terminate_def Let_def ex_st1_simps)
  have "generational_loop ex_world ?c ex_st1 = Some (Inl IndexError)"
    using stop pop perform_generation_no_elites [OF k count, of ex_world "snd (must_terminate ex_world ?c ex_st1)"]
    by (subst generational_loop.simps) simp
  with k init show ?thesis
    by (simp add: evolve_def Let_def ex_world_simps new_evolution_start) (simp add: new_evolution_def)
qed



subsection \<open>The archive of champions\<close>

text \<open>
  Each generation that returns adds one champion to the archive and one to the
  generation counter, so a run keeps the difference between the two that it starts with.
\<close>

lemma archive_length_loop_result:
  assumes "generational_loop w0 c0 st0 = Some r0"
  shows "case r0 of
           Inl e \<Rightarrow> True
         | Inr st' \<Rightarrow> length (best_of_gens st') + num_gens st0
                       = length (best_of_gens st0) + num_gens st'"
proof -
  let ?P = "\<lambda>(w :: ('t, 's, 'o) collaborators) (c :: config) (st :: ('t, 's) evolution) r.
              case r of
                Inl (e :: error) \<Rightarrow> True
              | Inr st' \<Rightarrow> length (best_of_gens st') + num_gens st
                            = length (best_of_gens st) + num_gens st'"
  have "?P w0 c0 st0 r0"
  proof (rule generational_loop.raw_induct [where P = ?P, OF _ assms])
    fix loop w c and st :: "('t, 's) evolution" and r
    assume IH: "\<And>w c st r. loop w c st = Some r \<Longrightarrow> ?P w c st r"
      and eq: "(if fst (must_terminate w c st) then Some (Inr (snd (must_terminate w c st)))
                else case perform_generation w c (snd (must_terminate w c st)) of
                       Inl e \<Rightarrow> Some (Inl e)
                     | Inr st1 \<Rightarrow>
                         (case log_info c st1 of
                            Inl e \<Rightarrow> Some (Inl e)
                          | Inr st2 \<Rightarrow> loop w c st2)) = Some r"
    let ?st1 = "snd (must_terminate w c st)"
    have st1: "best_of_gens ?st1 = best_of_gens st" "num_gens ?st1 = num_gens st"
      by (simp_all add: must_terminate_def Let_def)
    show "?P w c st r"
    proof (cases "fst (must_terminate w c st)")
      case True
      with eq st1 show ?thesis by auto
    next
      case False
      show ?thesis
      proof (cases "perform_generation w c ?st1")
        case (Inl e)
        with False eq show ?thesis by auto
      next
        case gen: (Inr st2)
        note counts = perform_generation_Inr(8,10) [OF gen]
        show ?thesis
        proof (cases "log_info c st2")
          case (Inl e)
          with False gen eq show ?thesis by auto
        next
          case (Inr st3)
          then have "log_info c st2 = Inr st2"
            by (auto simp: log_info_def split: if_splits)
          with False gen eq have "loop w c st2 = Some r"
            by simp
          from IH [OF this] counts st1 show ?thesis
            by (cases r) simp_all
        qed
      qed
    qed
  qed
  then show ?thesis .
qed

lemma archive_length_loop:
  assumes "generational_loop w c st = Some (Inr st')"
  shows "length (best_of_gens st') + num_gens st = length (best_of_gens st) + num_gens st'"
  using archive_length_loop_result [OF assms] by simp

text \<open>
  Claim C6 (\<open>len(best_of_gens) = num_gens + 1\<close> at every generation boundary, also in a
  run started from a seed population). A seeded run skips \<open>_initialize_population\<close>
  (line 359): it enters its first generation with an empty archive and \<open>num_gens = 0\<close>,
  and by \<open>archive_length_loop\<close> the archive has \<open>num_gens\<close> entries at every later
  boundary too. In the model the first generation of the seeded run raises, because
  \<open>self.memory\<close> is still \<open>None\<close> at line 307.
\<close>

theorem seeded_run_archive_too_short:
  "population (new_evolution ex_seed :: (nat, nat) evolution) = [0, 1, 2, 3]
   \<and> length (best_of_gens (new_evolution ex_seed :: (nat, nat) evolution)) = 0
   \<and> num_gens (new_evolution ex_seed :: (nat, nat) evolution) = 0
   \<and> evolve ex_world ex_config (new_evolution ex_seed) = Some (Inl TypeError)"
proof -
  let ?seeded = "new_evolution ex_seed :: (nat, nat) evolution"
  let ?entered = "?seeded\<lparr> start_time := clock ex_world 0 \<rparr>"
  let ?checked = "snd (must_terminate ex_world ex_config ?entered)"
  have pop: "population ?seeded = [0, 1, 2, 3]"
    by (simp add: new_evolution_def ex_seed_def upt_0_4)
  have go: "\<not> fst (must_terminate ex_world ex_config ?entered)"
    by (simp add: must_terminate_def Let_def ex_config_simps new_evolution_def)
  have st1: "population ?checked = [0, 1, 2, 3]" "memory ?checked = None" "heap ?checked = ex_seed"
    using pop by (simp_all add: must_terminate_def Let_def new_evolution_def)
  have "perform_generation ex_world ex_config ?checked = Inl TypeError"
  proof (rule perform_generation_memory_None)
    show "memory ?checked = None" by (rule st1)
    show "population ?checked \<noteq> []" unfolding st1(1) by simp
    show "0 < elite_count ex_config" by (simp add: ex_elite_count)
    show "nat (elite_count ex_config) \<le> length (population ?checked)"
      by (simp add: ex_elite_count st1)
    show "parents_of ex_world ex_config ?checked \<noteq> []"
      unfolding parents_of_def st1 by (simp add: ex_world_simps ex_config_simps)
    show "elite_count_error ex_config = None" by (rule ex_elite_count_error)
  qed
  then have "generational_loop ex_world ex_config ?entered = Some (Inl TypeError)"
    using go by (subst generational_loop.simps) simp
  then have "evolve ex_world ex_config ?seeded = Some (Inl TypeError)"
    using pop by (simp add: evolve_def Let_def)
  with pop show ?thesis
    by (simp add: new_evolution_def)
qed


subsection \<open>The targets of a refinement iteration\<close>

lemma length_masked_assign [simp]: "length (masked_assign zs ms vs) = length zs"
proof (induction zs arbitrary: ms vs)
  case Nil
  then show ?case by simp
next
  case (Cons z zs)
  show ?case
  proof (cases ms)
    case Nil
    then show ?thesis by simp
  next
    case ms: (Cons m ms')
    show ?thesis
    proof (cases m)
      case True
      with ms Cons.IH show ?thesis by (cases vs) simp_all
    next
      case False
      with ms Cons.IH show ?thesis by simp
    qed
  qed
qed

lemma length_next_state_values [simp]:
  "length (next_state_values w target trs) = batch_size"
  by (simp add: next_state_values_def)

lemma masked_assign_transitions:
  "length zs = length trs \<Longrightarrow> i < length trs \<Longrightarrow>
     masked_assign zs (non_final_mask trs) (map f (non_final_next_states trs)) ! i
       = (case next_state (trs ! i) of None \<Rightarrow> zs ! i | Some s \<Rightarrow> f s)"
proof (induction trs arbitrary: zs i)
  case Nil
  then show ?case by simp
next
  case (Cons tr trs)
  then obtain z zs' where zs: "zs = z # zs'" by (cases zs) auto
  with Cons.prems have len: "length zs' = length trs" by simp
  show ?case
  proof (cases "next_state tr")
    case None
    show ?thesis
    proof (cases i)
      case 0
      with None zs show ?thesis
        by (simp add: non_final_mask_def non_final_next_states_def List.map_filter_simps
            split: option.splits)
    next
      case (Suc j)
      with Cons.prems have "j < length trs" by simp
      from Cons.IH [OF len this] None zs Suc show ?thesis
        by (simp add: non_final_mask_def non_final_next_states_def List.map_filter_simps
            split: option.splits)
    qed
  next
    case (Some s)
    show ?thesis
    proof (cases i)
      case 0
      with Some zs show ?thesis
        by (simp add: non_final_mask_def non_final_next_states_def List.map_filter_simps
            split: option.splits)
    next
      case (Suc j)
      with Cons.prems have "j < length trs" by simp
      from Cons.IH [OF len this] Some zs Suc show ?thesis
        by (simp add: non_final_mask_def non_final_next_states_def List.map_filter_simps
            split: option.splits)
    qed
  qed
qed

lemma row_max_Max: "row \<noteq> [] \<Longrightarrow> row_max row = Max (set row)"
proof (cases row)
  case Nil
  assume "row \<noteq> []"
  with Nil show ?thesis by simp
next
  case (Cons a list)
  then show ?thesis
    using Max.set_eq_fold [of a list] by simp
qed

lemma next_state_values_nth:
  assumes "length trs = batch_size" and "i < batch_size"
  shows "next_state_values w target trs ! i
           = (case next_state (trs ! i) of None \<Rightarrow> 0
              | Some s \<Rightarrow> row_max (get_output_pt w target s))"
  using assms
  by (simp add: next_state_values_def masked_assign_transitions split: option.splits)

lemma expected_nth:
  assumes "length trs = batch_size" and "i < batch_size"
  shows "expected_state_action_values w target trs ! i
           = reward (trs ! i)
             + GAMMA * (case next_state (trs ! i) of None \<Rightarrow> 0
                        | Some s \<Rightarrow> row_max (get_output_pt w target s))"
proof -
  have "expected_state_action_values w target trs ! i
          = next_state_values w target trs ! i * GAMMA + reward (trs ! i)"
    using assms by (simp add: expected_state_action_values_def)
  then show ?thesis
    by (simp add: next_state_values_nth [OF assms])
qed

lemma non_final_member:
  "next_state tr = Some s \<Longrightarrow> tr \<in> set trs \<Longrightarrow> s \<in> set (non_final_next_states trs)"
  by (force simp: non_final_next_states_def List.map_filter_def)

lemma refine_step_Inr:
  assumes "refine_step w h best optimizer k mem = Inr (h', optimizer')"
  shows "length (sample w k mem batch_size) = batch_size"
    and "\<forall>s \<in> set (non_final_next_states (sample w k mem batch_size)).
           get_output_pt w (tree ((h @ [h ! best]) ! length h)) s \<noteq> []"
    and "h' = (h @ [h ! best])
               [best := ((h @ [h ! best]) ! best)
                  \<lparr> tree := snd (optimizer_step w optimizer (tree ((h @ [h ! best]) ! best))
                      (state_action_values w (tree ((h @ [h ! best]) ! best)) (sample w k mem batch_size))
                      (expected_state_action_values w (tree ((h @ [h ! best]) ! length h))
                         (sample w k mem batch_size))) \<rparr>]"
    and "optimizer' = fst (optimizer_step w optimizer (tree ((h @ [h ! best]) ! best))
                      (state_action_values w (tree ((h @ [h ! best]) ! best)) (sample w k mem batch_size))
                      (expected_state_action_values w (tree ((h @ [h ! best]) ! length h))
                         (sample w k mem batch_size)))"
  using assms
  by (auto simp: refine_step_def deepcopy_def Let_def split: if_splits prod.splits)

text \<open>
  Claim C8. In an iteration that returns, the target snapshot is a new object (the
  heap grows by it) with the contents the champion has at the start of the iteration,
  and the optimizer step does not change it. The optimizer is handed the target values
  computed from the snapshot, and the target of the \<open>i\<close>-th sampled transition is its
  reward plus \<open>GAMMA = 0.99\<close> times the highest action value of the snapshot at the next
  state, or plus zero when the next state is absent.
\<close>

theorem refinement_targets:
  assumes step: "refine_step w h best optimizer k mem = Inr (h', optimizer')"
    and valid: "best < length h"
    and i: "i < batch_size"
  shows "length h' = Suc (length h)
       \<and> h' ! length h = h ! best
       \<and> (optimizer', tree (h' ! best))
           = optimizer_step w optimizer (tree (h ! best))
               (state_action_values w (tree (h ! best)) (sample w k mem batch_size))
               (expected_state_action_values w (tree (h' ! length h)) (sample w k mem batch_size))
       \<and> expected_state_action_values w (tree (h' ! length h)) (sample w k mem batch_size) ! i
           = reward (sample w k mem batch_size ! i)
             + GAMMA * (case next_state (sample w k mem batch_size ! i) of
                          None \<Rightarrow> 0
                        | Some s \<Rightarrow> Max (set (get_output_pt w (tree (h ! best)) s)))"
proof -
  let ?trs = "sample w k mem batch_size"
  note facts = refine_step_Inr [OF step]
  have len: "length ?trs = batch_size" by (rule facts(1))
  have snapshot: "h' ! length h = h ! best"
    using valid by (simp add: facts(3) nth_append)
  have champion: "(h @ [h ! best]) ! best = h ! best"
    using valid by (simp add: nth_append)
  have rows: "row_max (get_output_pt w (tree (h ! best)) s) = Max (set (get_output_pt w (tree (h ! best)) s))"
    if "next_state (?trs ! i) = Some s" for s
  proof -
    have "?trs ! i \<in> set ?trs" using len i by simp
    from non_final_member [OF that this] facts(2) have "get_output_pt w (tree (h ! best)) s \<noteq> []"
      by simp
    then show ?thesis by (rule row_max_Max)
  qed
  have target: "expected_state_action_values w (tree (h' ! length h)) ?trs ! i
           = reward (?trs ! i)
             + GAMMA * (case next_state (?trs ! i) of
                          None \<Rightarrow> 0
                        | Some s \<Rightarrow> Max (set (get_output_pt w (tree (h ! best)) s)))"
    using rows by (simp add: expected_nth [OF len i] snapshot split: option.splits)
  have "length h' = Suc (length h)"
    by (simp add: facts(3))
  moreover have "(optimizer', tree (h' ! best))
           = optimizer_step w optimizer (tree (h ! best))
               (state_action_values w (tree (h ! best)) ?trs)
               (expected_state_action_values w (tree (h' ! length h)) ?trs)"
    using valid snapshot champion by (simp add: facts(3,4) nth_append)
  ultimately show ?thesis
    using snapshot target by simp
qed

lemma ex_refine_step:
  "refine_step ex_world [ex_object 0] 0 () 0 (replicate 129 ex_step)
     = Inr ([ex_object 1, ex_object 0], ())"
proof -
  have "non_final_next_states (replicate 128 ex_step) = replicate 128 7"
    by (simp add: non_final_next_states_def List.map_filter_def ex_step_def)
  then show ?thesis
    by (simp add: refine_step_def deepcopy_def Let_def ex_world_simps batch_size_def
        ex_step_def ex_object_def)
qed

theorem refinement_targets_witness:
  "[ex_object 1, ex_object 0] ! length [ex_object 0] = [ex_object 0] ! 0
   \<and> expected_state_action_values ex_world (tree ([ex_object 1, ex_object 0] ! length [ex_object 0]))
         (sample ex_world 0 (replicate 129 ex_step) batch_size) ! 5
       = reward (sample ex_world 0 (replicate 129 ex_step) batch_size ! 5) + GAMMA * 7"
  using refinement_targets [OF ex_refine_step, of 5]
  by (simp add: batch_size_def ex_world_simps ex_step_def ex_object_def)


subsection \<open>Elitism\<close>

lemma argmin_prefix:
  assumes "xs \<noteq> []" and "\<forall>x \<in> set xs. \<forall>y \<in> set ys. x \<le> y"
  shows "argmin (xs @ ys) < length xs"
  using assms
proof (induction xs)
  case Nil
  then show ?case by simp
next
  case (Cons x xs)
  show ?case
  proof (cases "xs = []")
    case True
    show ?thesis
    proof (cases "ys = []")
      case True
      with \<open>xs = []\<close> show ?thesis by simp
    next
      case False
      then have "ys ! argmin ys \<in> set ys"
        using argmin_less [of ys] by simp
      with Cons.prems have "x \<le> ys ! argmin ys" by simp
      with \<open>xs = []\<close> show ?thesis by simp
    qed
  next
    case False
    with Cons have "argmin (xs @ ys) < length xs" by simp
    then show ?thesis by simp
  qed
qed

lemma fitnesses_of_append: "fitnesses_of h (xs @ ys) = fitnesses_of h xs @ fitnesses_of h ys"
  by (simp add: fitnesses_of_def)

lemma replace_lowest_prefix:
  assumes "os \<noteq> []"
    and "\<forall>u \<in> set os. \<forall>x \<in> set cs. fitness (h ! u) \<le> fitness (h ! x)"
  shows "\<exists>os'. replace_lowest h (os @ cs) e = (os' @ cs @ [length h], h @ [h ! e])
               \<and> set os' \<subseteq> set os \<and> length os' = length os - 1"
proof -
  let ?a = "argmin (fitnesses_of h (os @ cs))"
  have "?a < length (fitnesses_of h os)"
    unfolding fitnesses_of_append
    using assms by (intro argmin_prefix) (auto simp: fitnesses_of_def)
  then have a: "?a < length os" by simp
  then have lowest: "(os @ cs) ! ?a = os ! ?a" and mem: "os ! ?a \<in> set os"
    by (simp_all add: nth_append)
  have "remove1 (os ! ?a) (os @ cs) = remove1 (os ! ?a) os @ cs"
    using mem by (simp add: remove1_append)
  moreover have "set (remove1 (os ! ?a) os) \<subseteq> set os"
    by (rule set_remove1_subset)
  moreover have "length (remove1 (os ! ?a) os) = length os - 1"
    using mem by (simp add: length_remove1)
  ultimately show ?thesis
    using lowest by (simp add: replace_lowest_def deepcopy_def Let_def)
qed

lemma reinsert_elites_heap:
  assumes "\<forall>e \<in> set es. e < length h"
  shows "snd (reinsert_elites h pop es) = h @ map (nth h) es"
  using assms
proof (induction es arbitrary: h pop)
  case Nil
  then show ?case by simp
next
  case (Cons e es)
  let ?pop' = "remove1 (pop ! argmin (fitnesses_of h pop)) pop @ [length h]"
  have step: "replace_lowest h pop e = (?pop', h @ [h ! e])"
    by (simp add: replace_lowest_def deepcopy_def)
  have "\<forall>x \<in> set es. x < length (h @ [h ! e])"
    using Cons.prems by (auto simp: less_Suc_eq)
  from Cons.IH [OF this, of ?pop']
  have "snd (reinsert_elites (h @ [h ! e]) ?pop' es) = (h @ [h ! e]) @ map (nth (h @ [h ! e])) es" .
  moreover have "map (nth (h @ [h ! e])) es = map (nth h) es"
    using Cons.prems by (simp add: nth_append)
  ultimately show ?case
    by (simp add: step)
qed

lemma reinsert_elites_prefix:
  assumes "length es < length os"
    and "\<forall>r \<in> set os \<union> set cs \<union> set es. r < length h"
    and "\<forall>u \<in> set os. \<forall>x \<in> set cs \<union> set es. fitness (h ! u) \<le> fitness (h ! x)"
  shows "\<exists>os'. reinsert_elites h (os @ cs) es
                 = (os' @ cs @ [length h ..< length h + length es], h @ map (nth h) es)
               \<and> set os' \<subseteq> set os \<and> length os' = length os - length es"
  using assms
proof (induction es arbitrary: h os cs)
  case Nil
  then show ?case by simp
next
  case (Cons e es)
  from Cons.prems(1) have ne: "os \<noteq> []" by auto
  have dom_cs: "\<forall>u \<in> set os. \<forall>x \<in> set cs. fitness (h ! u) \<le> fitness (h ! x)"
    using Cons.prems(3) by simp
  from replace_lowest_prefix [OF ne dom_cs, of e]
  obtain os1 where step: "replace_lowest h (os @ cs) e = (os1 @ cs @ [length h], h @ [h ! e])"
    and sub1: "set os1 \<subseteq> set os" and len1: "length os1 = length os - 1"
    by auto
  let ?h1 = "h @ [h ! e]"
  let ?cs1 = "cs @ [length h]"
  have old: "?h1 ! r = h ! r" if "r < length h" for r
    using that by (simp add: nth_append)
  have valid_os: "\<forall>u \<in> set os1. u < length h"
    using sub1 Cons.prems(2) by auto
  have valid_es: "\<forall>x \<in> set es. x < length h" and valid_cs: "\<forall>x \<in> set cs. x < length h"
    and valid_e: "e < length h"
    using Cons.prems(2) by auto
  have p1: "length es < length os1"
    using Cons.prems(1) len1 by simp
  have p2: "\<forall>r \<in> set os1 \<union> set ?cs1 \<union> set es. r < length ?h1"
    using valid_os valid_es valid_cs by (auto simp: less_Suc_eq)
  have p3: "\<forall>u \<in> set os1. \<forall>x \<in> set ?cs1 \<union> set es. fitness (?h1 ! u) \<le> fitness (?h1 ! x)"
  proof (intro ballI)
    fix u x
    assume u: "u \<in> set os1" and x: "x \<in> set ?cs1 \<union> set es"
    from u sub1 have o_os: "u \<in> set os" by auto
    from u valid_os have ho: "?h1 ! u = h ! u" by (simp add: old)
    show "fitness (?h1 ! u) \<le> fitness (?h1 ! x)"
    proof (cases "x = length h")
      case True
      then have "?h1 ! x = h ! e" by simp
      with ho o_os Cons.prems(3) show ?thesis by simp
    next
      case False
      with x have x_in: "x \<in> set cs \<union> set es" by auto
      with valid_cs valid_es have "?h1 ! x = h ! x" by (auto simp: old)
      with ho o_os x_in Cons.prems(3) show ?thesis by auto
    qed
  qed
  from Cons.IH [OF p1 p2 p3]
  obtain os' where rest: "reinsert_elites ?h1 (os1 @ ?cs1) es
                 = (os' @ ?cs1 @ [length ?h1 ..< length ?h1 + length es], ?h1 @ map (nth ?h1) es)"
    and sub2: "set os' \<subseteq> set os1" and len2: "length os' = length os1 - length es"
    by auto
  have "map (nth ?h1) es = map (nth h) es"
    using valid_es by (simp add: old)
  moreover have "[length h ..< length h + Suc (length es)]
                   = length h # [Suc (length h) ..< Suc (length h) + length es]"
    by (simp add: upt_rec)
  ultimately have "reinsert_elites h (os @ cs) (e # es)
          = (os' @ cs @ [length h ..< length h + length (e # es)], h @ map (nth h) (e # es))"
    using step rest by simp
  moreover have "set os' \<subseteq> set os" using sub1 sub2 by auto
  moreover have "length os' = length os - length (e # es)" using len1 len2 by simp
  ultimately show ?case by blast
qed


lemma deepcopy_list_fresh:
  assumes "distinct rs" and "set rs \<inter> fst ` set memo = {}" and "\<forall>r \<in> set rs. r < length h"
  shows "deepcopy_list memo h rs = ([length h ..< length h + length rs], h @ map (nth h) rs)"
  using assms
proof (induction rs arbitrary: memo h)
  case Nil
  then show ?case by simp
next
  case (Cons r rs)
  let ?h1 = "h @ [h ! r]"
  have none: "map_of memo r = None"
    using Cons.prems(2) by (auto simp: map_of_eq_None_iff)
  have p1: "distinct rs" using Cons.prems(1) by simp
  have p2: "set rs \<inter> fst ` set ((r, length h) # memo) = {}"
    using Cons.prems(1,2) by auto
  have p3: "\<forall>x \<in> set rs. x < length ?h1"
    using Cons.prems(3) by (auto simp: less_Suc_eq)
  have same: "map (nth ?h1) rs = map (nth h) rs"
    using Cons.prems(3) by (simp add: nth_append)
  have "[length h ..< length h + Suc (length rs)]
          = length h # [Suc (length h) ..< Suc (length h) + length rs]"
    by (simp add: upt_rec)
  with Cons.IH [OF p1 p2 p3] none same show ?case
    by (simp add: deepcopy_def)
qed

lemma elites_of_fresh:
  assumes "0 \<le> elite_count c" and "distinct (population st)"
    and "\<forall>r \<in> set (population st). r < length (heap st)"
  shows "elites_of c st =
           ([length (heap st) ..<
               length (heap st)
                 + length (take (nat (elite_count c))
                            (sorted_by_fitness_desc (heap st) (population st)))],
            heap st @ map (nth (heap st))
                        (take (nat (elite_count c))
                           (sorted_by_fitness_desc (heap st) (population st))))"
proof -
  let ?top = "take (nat (elite_count c)) (sorted_by_fitness_desc (heap st) (population st))"
  have "distinct ?top"
    using assms(2) by (simp add: sorted_by_fitness_desc_def)
  moreover have "set ?top \<inter> fst ` set [] = {}" by simp
  moreover have "\<forall>r \<in> set ?top. r < length (heap st)"
    using assms(3) by (auto simp: sorted_by_fitness_desc_def dest: in_set_takeD)
  ultimately have "deepcopy_list [] (heap st) ?top
      = ([length (heap st) ..< length (heap st) + length ?top], heap st @ map (nth (heap st)) ?top)"
    by (rule deepcopy_list_fresh)
  then show ?thesis
    using assms(1) by (simp add: elites_of_def slice_to_def)
qed

lemma tree_set_scores: "tree (set_scores h r e ! r') = tree (h ! r')"
proof (cases "r' = r \<and> r < length h")
  case True
  then show ?thesis by (simp add: set_scores_def)
next
  case False
  then show ?thesis
    by (cases "r' = r") (simp_all add: set_scores_def list_update_beyond)
qed

lemma tree_store_scores: "tree (store_scores h batch res n ! r) = tree (h ! r)"
  by (induction n) (simp_all add: store_scores_Suc tree_set_scores)


lemma map_nth_upt_shift:
  "map (\<lambda>i. [n ..< n + k] ! i) [1 ..< k] = [n + 1 ..< n + k]"
  by (rule nth_equalityI) simp_all

lemma ex_ranked:
  "sorted_by_fitness_desc (heap ex_st1) (population ex_st1) = [0, 1, 2, 3]"
  by (simp add: sorted_by_fitness_desc_def ex_st1_simps ex_heap1_def ex_ind_def)

text \<open>
  Claim C2 says that at least \<open>elite_count\<close> of the top individuals of a generation
  have a deep copy in the next population. In the small run \<open>elite_count\<close> is 2 and the
  top two individuals are the trees 0 and 1; the next population holds the trees 102,
  103, 1 and 1. The loop of line 326 starts at index 1, so no copy of the snapshot of
  tree 0 is appended, and no offspring is tree 0: one of the two elites has a copy in
  the next population.
\<close>

theorem top_elite_not_in_next_population:
  "perform_generation ex_world ex_config ex_st1 = Inr ex_st2
   \<and> elite_count ex_config = 2
   \<and> map (\<lambda>r. tree (heap ex_st1 ! r))
         (take 2 (sorted_by_fitness_desc (heap ex_st1) (population ex_st1))) = [0, 1]
   \<and> map (\<lambda>r. tree (heap ex_st2 ! r)) (population ex_st2) = [102, 103, 1, 1]"
  unfolding ex_ranked
  by (simp add: ex_generation ex_elite_count ex_st1_simps ex_st2_simps
      ex_heap4_def ex_heap1_def ex_ind_def)

text \<open>
  Claim C2, amended. In a generation that returns (with a selection that returns
  \<open>pop_size\<close> parents and a population of distinct objects of the heap), the loop of
  line 326 makes a deep copy of each elite snapshot of index \<open>i\<close> from 1 to
  \<open>elite_count - 1\<close>: the object \<open>length (heap_after_offspring w c st) + i - 1\<close>, which
  is new, has the tree of the individual of rank \<open>i\<close> and has the fitness of the
  second evaluation of that individual. When \<open>elite_count\<close> is at most \<open>pop_size\<close> and
  each of these fitness values is at least every fitness evaluated for the offspring,
  the copy is in the next population.
\<close>

theorem elites_reinserted:
  assumes gen: "perform_generation w c st = Inr st'"
    and contract: "length (parents_of w c st) = pop_size c"
    and objects: "distinct (population st)" "\<forall>r \<in> set (population st). r < length (heap st)"
    and i: "1 \<le> i" "i < nat (elite_count c)"
  shows "length (heap st) \<le> length (heap_after_offspring w c st) + i - 1
       \<and> length (heap_after_offspring w c st) + i - 1 < length (heap st')
       \<and> tree (heap st' ! (length (heap_after_offspring w c st) + i - 1))
           = tree (heap st ! (sorted_by_fitness_desc (heap st) (population st) ! i))
       \<and> fitness (heap st' ! (length (heap_after_offspring w c st) + i - 1))
           = ev_fitness (elite_fitnesses w c st ! i)
       \<and> (nat (elite_count c) \<le> pop_size c
            \<and> (\<forall>x \<in> set (map ev_fitness (offspring_fitnesses w c st)).
                  \<forall>y \<in> set (map ev_fitness (drop 1 (elite_fitnesses w c st))). x \<le> y)
          \<longrightarrow> length (heap_after_offspring w c st) + i - 1 \<in> set (population st'))"
proof -
  let ?n = "length (heap st)"
  let ?k = "nat (elite_count c)"
  let ?p = "pop_size c"
  let ?ranked = "sorted_by_fitness_desc (heap st) (population st)"
  let ?top = "take ?k ?ranked"
  let ?E = "fst (elites_of c st)"
  let ?O = "fst (offspring_population_of w c st)"
  let ?h2 = "snd (offspring_population_of w c st)"
  let ?h3 = "heap_after_elites w c st"
  let ?h4 = "heap_after_offspring w c st"
  let ?efit = "elite_fitnesses w c st"
  let ?ofit = "offspring_fitnesses w c st"
  let ?es = "map (\<lambda>i. ?E ! i) [1 ..< ?k]"
  let ?pop1 = "fst (population_after_elites w c st)"
  let ?h5 = "snd (population_after_elites w c st)"
  let ?copies = "[length ?h4 ..< length ?h4 + (?k - 1)]"
  let ?r = "length ?h4 + i - 1"

  have count: "0 \<le> elite_count c" using i by simp
  note el = elites_of_fresh [OF count objects]
  have "?k \<le> length ?E"
    by (rule perform_generation_Inr(3) [OF gen])
  then have top_len: "length ?top = ?k"
    by (simp add: el)
  have E: "?E = [?n ..< ?n + ?k]"
    using top_len by (simp add: el)
  have h1: "snd (elites_of c st) = heap st @ map (nth (heap st)) ?top"
    by (simp add: el)
  have len_h1: "length (snd (elites_of c st)) = ?n + ?k"
    using top_len by (simp add: h1)
  have O: "?O = [?n + ?k ..< ?n + ?k + ?p]"
    by (simp add: offspring_population_refs contract len_h1)
  have len_h4: "length ?h4 = ?n + ?k + ?p"
    by (simp add: offspring_population_refs contract len_h1)
  have size: "?p \<le> length ?O"
    by (simp add: O)

  have elite_tree: "tree (?h4 ! (?n + j)) = tree (heap st ! (?ranked ! j))" if "j < ?k" for j
  proof -
    have "tree (?h4 ! (?n + j)) = tree (?h2 ! (?n + j))"
      by (simp add: heap_after_offspring_def heap_after_elites_def tree_store_scores)
    also have "?h2 ! (?n + j) = snd (elites_of c st) ! (?n + j)"
      using that len_h1 by (simp add: offspring_population_of_def alloc_list_def nth_append)
    also have "\<dots> = heap st ! (?top ! j)"
      using that top_len by (simp add: h1 nth_append)
    also have "?top ! j = ?ranked ! j"
      using that by simp
    finally show ?thesis .
  qed
  have elite_fit: "fitness (?h4 ! (?n + j)) = ev_fitness (?efit ! j)" if "j < ?k" for j
  proof -
    have "?n + j \<notin> set (take ?p ?O)"
      using that by (auto simp: O dest: in_set_takeD)
    then have "?h4 ! (?n + j) = ?h3 ! (?n + j)"
      unfolding heap_after_offspring_def by (rule store_scores_other) (rule size)
    moreover have "fitness (?h3 ! (?E ! j)) = ev_fitness (?efit ! j)"
      unfolding heap_after_elites_def
    proof (rule store_scores_fitness [OF _ _ _ that])
      show "distinct ?E" by (simp add: E)
      show "?k \<le> length ?E" by (simp add: E)
      show "\<forall>r \<in> set ?E. r < length ?h2"
        by (auto simp: E offspring_population_refs len_h1)
    qed
    ultimately show ?thesis
      using that by (simp add: E)
  qed

  have es: "?es = [?n + 1 ..< ?n + ?k]"
    unfolding E by (rule map_nth_upt_shift)
  have len_es: "length ?es = ?k - 1"
    by simp
  have "\<forall>e \<in> set ?es. e < length ?h4"
    unfolding es using len_h4 by auto
  then have "snd (reinsert_elites ?h4 ?O ?es) = ?h4 @ map (nth ?h4) ?es"
    by (rule reinsert_elites_heap)
  then have h5: "?h5 = ?h4 @ map (nth ?h4) ?es"
    by (simp add: population_after_elites_def)
  have copy: "?h5 ! (length ?h4 + t) = ?h4 ! (?n + (t + 1))" if "t < ?k - 1" for t
  proof -
    have "?h5 ! (length ?h4 + t) = ?h4 ! (?es ! t)"
      using that by (simp add: h5 nth_append del: map_map)
    also have "?es ! t = ?n + (t + 1)"
      unfolding es using that by simp
    finally show ?thesis .
  qed

  have r: "?r = length ?h4 + (i - 1)" and t: "i - 1 < ?k - 1"
    using i by simp_all
  have len_h5: "length ?h5 = length ?h4 + (?k - 1)"
    by (simp add: h5)
  have "heap st' ! ?r = ?h5 ! ?r"
    using t by (simp add: perform_generation_result(1) [OF gen] r len_h5 nth_append)
  also have "\<dots> = ?h4 ! (?n + i)"
    unfolding r using copy [OF t] i by simp
  finally have object: "heap st' ! ?r = ?h4 ! (?n + i)" .
  have new: "length (heap st) \<le> ?r"
    using len_h4 i by simp
  have "length (heap st') = length ?h5 + 2"
    by (simp add: perform_generation_result(1) [OF gen])
  then have stored: "?r < length (heap st')"
    using t by (simp add: r len_h5)

  have member: "?r \<in> set (population st')"
    if kp: "?k \<le> ?p"
      and dominate: "\<forall>x \<in> set (map ev_fitness ?ofit).
                       \<forall>y \<in> set (map ev_fitness (drop 1 ?efit)). x \<le> y"
  proof -
    have offspring_fit: "fitness (?h4 ! u) \<in> set (map ev_fitness ?ofit)" if "u \<in> set ?O" for u
    proof -
      from that have bounds: "?n + ?k \<le> u" "u < ?n + ?k + ?p"
        by (simp_all add: O)
      define j where "j = u - (?n + ?k)"
      have j: "j < ?p" and u: "u = ?O ! j"
        using bounds by (simp_all add: j_def O)
      have "j < length ?ofit"
        using j by (simp add: offspring_fitnesses_def O)
      then have "ev_fitness (?ofit ! j) \<in> set (map ev_fitness ?ofit)"
        by (metis length_map nth_map nth_mem)
      with offspring_fitness_stored [OF size j] u show ?thesis by simp
    qed
    have len_efit: "length ?efit = ?k"
      by (simp add: elite_fitnesses_def E)
    have es_dom: "fitness (?h4 ! u) \<le> fitness (?h4 ! x)" if "u \<in> set ?O" and "x \<in> set ?es" for u x
    proof -
      from that(2) have bounds: "?n + 1 \<le> x" "x < ?n + ?k"
        unfolding es by simp_all
      define j where "j = x - ?n"
      have j: "1 \<le> j" "j < ?k" and x: "x = ?n + j"
        using bounds by (simp_all add: j_def)
      have "j - 1 < length (drop 1 ?efit)"
        using j len_efit by simp
      then have "ev_fitness (drop 1 ?efit ! (j - 1)) \<in> set (map ev_fitness (drop 1 ?efit))"
        by (metis length_map nth_map nth_mem)
      moreover have "drop 1 ?efit ! (j - 1) = ?efit ! j"
        using j len_efit by simp
      ultimately have "ev_fitness (?efit ! j) \<in> set (map ev_fitness (drop 1 ?efit))"
        by simp
      with dominate offspring_fit [OF that(1)] have "fitness (?h4 ! u) \<le> ev_fitness (?efit ! j)"
        by blast
      with elite_fit [OF j(2)] x show ?thesis by simp
    qed
    have "\<exists>os'. reinsert_elites ?h4 (?O @ []) ?es
                   = (os' @ [] @ [length ?h4 ..< length ?h4 + length ?es], ?h4 @ map (nth ?h4) ?es)
                 \<and> set os' \<subseteq> set ?O \<and> length os' = length ?O - length ?es"
    proof (rule reinsert_elites_prefix)
      show "length ?es < length ?O"
        using kp i by (simp add: O)
      show "\<forall>r \<in> set ?O \<union> set [] \<union> set ?es. r < length ?h4"
        unfolding es using len_h4 by (auto simp: O)
      show "\<forall>u \<in> set ?O. \<forall>x \<in> set [] \<union> set ?es. fitness (?h4 ! u) \<le> fitness (?h4 ! x)"
        using es_dom by simp
    qed
    then obtain os' where pop1: "?pop1 = os' @ ?copies"
      and sub: "set os' \<subseteq> set ?O" and len_os: "length os' = ?p - (?k - 1)"
      by (auto simp: population_after_elites_def O)
    have os_ne: "os' \<noteq> []"
      using len_os kp i by auto
    have os_valid: "u < length ?h4" if "u \<in> set os'" for u
      using that sub len_h4 by (auto simp: O)
    have last_dom: "\<forall>u \<in> set os'. \<forall>x \<in> set ?copies. fitness (?h5 ! u) \<le> fitness (?h5 ! x)"
    proof (intro ballI)
      fix u x
      assume u: "u \<in> set os'" and x: "x \<in> set ?copies"
      from x have bounds: "length ?h4 \<le> x" "x < length ?h4 + (?k - 1)"
        by simp_all
      define t where "t = x - length ?h4"
      have t: "t < ?k - 1" and xt: "x = length ?h4 + t"
        using bounds by (simp_all add: t_def)
      have "?h5 ! u = ?h4 ! u"
        using os_valid [OF u] by (simp add: h5 nth_append)
      moreover have "?n + (t + 1) \<in> set ?es"
        unfolding es using t by auto
      moreover have "u \<in> set ?O" using u sub by auto
      ultimately show "fitness (?h5 ! u) \<le> fitness (?h5 ! x)"
        using es_dom copy [OF t] xt by simp
    qed
    from replace_lowest_prefix [OF os_ne last_dom, of "generation_best w c st"]
    obtain os'' where "replace_lowest ?h5 (os' @ ?copies) (generation_best w c st)
                         = (os'' @ ?copies @ [length ?h5], ?h5 @ [?h5 ! generation_best w c st])"
      by auto
    then have final: "population st' = os'' @ ?copies @ [length ?h5]"
      by (simp add: perform_generation_Inr(7) [OF gen] pop1)
    have "length ?h4 + (i - 1) \<in> set ?copies"
      using t by (simp del: One_nat_def)
    then show ?thesis
      unfolding final r set_append Un_iff by blast
  qed
  show ?thesis
    using new stored object elite_tree [OF i(2)] elite_fit [OF i(2)] member by simp
qed


theorem elites_reinserted_witness:
  "length (heap ex_st1) \<le> 11
   \<and> 11 < length (heap ex_st2)
   \<and> tree (heap ex_st2 ! 11)
       = tree (heap ex_st1 ! (sorted_by_fitness_desc (heap ex_st1) (population ex_st1) ! 1))
   \<and> fitness (heap ex_st2 ! 11) = ev_fitness (elite_fitnesses ex_world ex_config ex_st1 ! 1)
   \<and> 11 \<in> set (population ex_st2)"
proof -
  have contract: "length (parents_of ex_world ex_config ex_st1) = pop_size ex_config"
    by (simp add: parents_of_def ex_world_simps ex_config_simps ex_st1_simps)
  have objects: "distinct (population ex_st1)"
    "\<forall>r \<in> set (population ex_st1). r < length (heap ex_st1)"
    by (simp_all add: ex_st1_simps ex_heap1_def)
  have size: "nat (elite_count ex_config) \<le> pop_size ex_config"
    by (simp add: ex_elite_count ex_config_simps)
  have dominate: "\<forall>x \<in> set (map ev_fitness (offspring_fitnesses ex_world ex_config ex_st1)).
                    \<forall>y \<in> set (map ev_fitness (drop 1 (elite_fitnesses ex_world ex_config ex_st1))).
                      x \<le> y"
    by (simp add: ex_offspring_fitnesses ex_elite_fitnesses ev_fitness_def)
  have i: "(1::nat) \<le> 1" "1 < nat (elite_count ex_config)"
    by (simp_all add: ex_elite_count)
  have len: "length (heap_after_offspring ex_world ex_config ex_st1) + 1 - 1 = 11"
    by (simp add: ex_heap_after_offspring ex_heap4_def ex_heap1_def)
  from elites_reinserted [OF ex_generation contract objects i] size dominate
  show ?thesis
    unfolding len by blast
qed


end
